theory Spec2Isabelle
  imports Main "HOL-Library.Finite_Map" "HOL-Library.Char_ord" "HOL-Library.List_Lexorder"
    "HOL-Library.Sublist"
begin

section \<open>Data model\<close>

text \<open>
  The solver of \<^verbatim>\<open>sudoku_ac3.py\<close> works on objects of the class \<^verbatim>\<open>CSP\<close>, which has three
  fields and no others (\<^verbatim>\<open>__init__\<close>, lines 6-16):
  \<^item> \<^verbatim>\<open>variables\<close>, a Python list;
  \<^item> \<^verbatim>\<open>domains\<close>, a dict from variables to sets of values;
  \<^item> \<^verbatim>\<open>neighbors\<close>, a dict from variables to sets of variables.

  A dict is a finite map and a Python set is a finite set. A value is a Python string or a
  Python integer: the loader only builds one-character strings, but the class takes any
  domains, and the operations the solver applies to a value (\<^verbatim>\<open>!=\<close>, \<^verbatim>\<open>set(value)\<close>,
  \<^verbatim>\<open>sorted\<close>) behave differently on longer strings and on integers. The only place where
  the iteration order of a Python set can influence the control flow is the enumeration of
  a neighbour set (lines 83 and 98); a neighbour set is therefore the list of its members in
  iteration order. No two keys of \<^verbatim>\<open>domains\<close> share one set object: neither the loader nor
  \<^verbatim>\<open>copy.deepcopy\<close> followed by an assignment builds such a dict.
  A failed dict lookup raises \<^verbatim>\<open>KeyError\<close>, \<^verbatim>\<open>set\<close> of an integer and a comparison of
  a string with an integer raise \<^verbatim>\<open>TypeError\<close>, the loader raises \<^verbatim>\<open>ValueError\<close>.
\<close>

datatype pyval = is_Str: Str (un_Str: string) | is_Num: Num (un_Num: int)

datatype complaint = Not_9_lines | Not_9_cells nat | Invalid_character string

datatype error = KeyError | TypeError | ValueError complaint

record 'v csp =
  variables :: "'v list"
  domains :: "('v, pyval fset) fmap"
  neighbors :: "('v, 'v list) fmap"

type_synonym 'v arc = "'v \<times> 'v"

section \<open>Revise\<close>

text \<open>
  Lines 104-123. The loop over \<^verbatim>\<open>csp.domains[xi]\<close> looks \<^verbatim>\<open>xj\<close> up once per value of
  \<^verbatim>\<open>xi\<close>, so an empty domain of \<^verbatim>\<open>xi\<close> never touches \<^verbatim>\<open>csp.domains[xj]\<close>. The
  in-place \<^verbatim>\<open>-=\<close> becomes an update of the map at \<^verbatim>\<open>xi\<close>.
\<close>

definition Revise :: "'v csp \<Rightarrow> 'v \<Rightarrow> 'v \<Rightarrow> error + (bool \<times> 'v csp)" where
  "Revise csp xi xj =
     (case fmlookup (domains csp) xi of
        None \<Rightarrow> Inl KeyError
      | Some di \<Rightarrow>
          if di = {||} then Inr (False, csp)
          else (case fmlookup (domains csp) xj of
                  None \<Rightarrow> Inl KeyError
                | Some dj \<Rightarrow>
                    let to_remove = ffilter (\<lambda>x. \<not> (\<exists>y \<in> fset dj. y \<noteq> x)) di in
                    if to_remove \<noteq> {||}
                    then Inr (True, csp\<lparr>domains := fmupd xi (di |-| to_remove) (domains csp)\<rparr>)
                    else Inr (False, csp)))"

section \<open>AC-3\<close>

text \<open>Lines 80-84: the worklist starts with every arc, variable by variable.\<close>

fun initial_queue :: "'v csp \<Rightarrow> 'v list \<Rightarrow> error + 'v arc list" where
  "initial_queue csp [] = Inr []"
| "initial_queue csp (xi # rest) =
     (case fmlookup (neighbors csp) xi of
        None \<Rightarrow> Inl KeyError
      | Some ns \<Rightarrow>
          (case initial_queue csp rest of
             Inl e \<Rightarrow> Inl e
           | Inr queue \<Rightarrow> Inr (map (Pair xi) ns @ queue)))"

text \<open>
  Lines 94-101, one pass through the body of the \<^verbatim>\<open>while\<close> loop after
  \<^verbatim>\<open>popleft\<close> has taken the arc \<open>(xi, xj)\<close> off the worklist: either the function returns,
  or the loop goes on with a model and a worklist.
\<close>

datatype 'v iteration = Return bool "'v csp" | Continue "'v csp" "'v arc list"

definition AC3_body :: "'v csp \<Rightarrow> 'v \<Rightarrow> 'v \<Rightarrow> 'v arc list \<Rightarrow> error + 'v iteration" where
  "AC3_body csp xi xj queue =
     (case Revise csp xi xj of
        Inl e \<Rightarrow> Inl e
      | Inr (revised, csp') \<Rightarrow>
          if revised then
            (case fmlookup (domains csp') xi of
               None \<Rightarrow> Inl KeyError
             | Some di \<Rightarrow>
                 if di = {||} then Inr (Return False csp')
                 else (case fmlookup (neighbors csp') xi of
                         None \<Rightarrow> Inl KeyError
                       | Some ns \<Rightarrow>
                           Inr (Continue csp'
                                  (queue @ map (\<lambda>xk. (xk, xi)) (filter (\<lambda>xk. xk \<noteq> xj) ns)))))
          else Inr (Continue csp' queue))"

text \<open>The measure of the loop: the number of values left in all domains.\<close>

definition domain_size :: "'v csp \<Rightarrow> 'v \<Rightarrow> nat" where
  "domain_size csp v = (case fmlookup (domains csp) v of None \<Rightarrow> 0 | Some d \<Rightarrow> fcard d)"

definition total_size :: "'v csp \<Rightarrow> nat" where
  "total_size csp = sum (domain_size csp) (fmdom' (domains csp))"

text \<open>Lines 89-102: the \<^verbatim>\<open>while\<close> loop; the head of the list is the left end of the deque.\<close>

function AC3_loop :: "'v csp \<Rightarrow> 'v arc list \<Rightarrow> error + (bool \<times> 'v csp)" where
  "AC3_loop csp [] = Inr (True, csp)"
| "AC3_loop csp ((xi, xj) # queue) =
     (case AC3_body csp xi xj queue of
        Inl e \<Rightarrow> Inl e
      | Inr (Return is_consistent csp') \<Rightarrow> Inr (is_consistent, csp')
      | Inr (Continue csp' queue') \<Rightarrow> AC3_loop csp' queue')"
  by pat_completeness auto

lemma Revise_cases:
  assumes "Revise csp xi xj = Inr (revised, csp')"
  obtains (unchanged) "\<not> revised" "csp' = csp"
  | (shrunk) di dj where "revised" "fmlookup (domains csp) xi = Some di"
      "fmlookup (domains csp) xj = Some dj"
      "ffilter (\<lambda>x. \<not> (\<exists>y \<in> fset dj. y \<noteq> x)) di \<noteq> {||}"
      "csp' = csp\<lparr>domains := fmupd xi (di |-| ffilter (\<lambda>x. \<not> (\<exists>y \<in> fset dj. y \<noteq> x)) di) (domains csp)\<rparr>"
  using assms
  by (auto simp: Revise_def Let_def split: option.splits if_splits)

lemma total_size_shrink:
  assumes "fmlookup (domains csp) xi = Some di" "d' |\<subset>| di"
  shows "total_size (csp\<lparr>domains := fmupd xi d' (domains csp)\<rparr>) < total_size csp"
proof -
  let ?D = "domains csp"
  have xi: "xi \<in> fmdom' ?D" using assms(1) by (simp add: fmdom'I)
  have fin: "finite (fmdom' ?D)" by simp
  have "fcard d' < fcard di" using assms(2) by (rule pfsubset_fcard_mono)
  then have lt: "domain_size (csp\<lparr>domains := fmupd xi d' ?D\<rparr>) xi < domain_size csp xi"
    using assms(1) by (simp add: domain_size_def)
  have eq: "\<And>k. k \<noteq> xi \<Longrightarrow> domain_size (csp\<lparr>domains := fmupd xi d' ?D\<rparr>) k = domain_size csp k"
    by (simp add: domain_size_def)
  have "sum (domain_size (csp\<lparr>domains := fmupd xi d' ?D\<rparr>)) (fmdom' ?D)
        < sum (domain_size csp) (fmdom' ?D)"
  proof (rule sum_strict_mono_ex1)
    show "finite (fmdom' ?D)" by (rule fin)
    show "\<forall>k \<in> fmdom' ?D. domain_size (csp\<lparr>domains := fmupd xi d' ?D\<rparr>) k \<le> domain_size csp k"
    proof
      fix k
      show "domain_size (csp\<lparr>domains := fmupd xi d' ?D\<rparr>) k \<le> domain_size csp k"
        using lt eq[of k] by (cases "k = xi") simp_all
    qed
    show "\<exists>k \<in> fmdom' ?D. domain_size (csp\<lparr>domains := fmupd xi d' ?D\<rparr>) k < domain_size csp k"
      using xi lt by blast
  qed
  then show ?thesis by (simp add: total_size_def insert_absorb[OF xi])
qed

lemma ffilter_fsubset: "ffilter P A |\<subseteq>| A"
  by (rule fsubsetI) simp

lemma fminus_pfsubset:
  assumes "R \<noteq> {||}" and "R |\<subseteq>| d"
  shows "d |-| R |\<subset>| d"
proof -
  from assms(1) obtain x where x: "x |\<in>| R" by blast
  with assms(2) have xd: "x |\<in>| d" by blast
  have "d |-| R \<noteq> d"
  proof
    assume "d |-| R = d"
    with xd have "x |\<in>| d |-| R" by simp
    with x show False by simp
  qed
  moreover have "d |-| R |\<subseteq>| d" by blast
  ultimately show ?thesis by (simp add: less_le)
qed

lemma Revise_total_size:
  assumes "Revise csp xi xj = Inr (revised, csp')"
  shows "if revised then total_size csp' < total_size csp else csp' = csp"
  using assms
proof (cases rule: Revise_cases)
  case unchanged
  then show ?thesis by simp
next
  case (shrunk di dj)
  have "di |-| ffilter (\<lambda>x. \<not> (\<exists>y \<in> fset dj. y \<noteq> x)) di |\<subset>| di"
    by (rule fminus_pfsubset[OF shrunk(4) ffilter_fsubset])
  from total_size_shrink[OF shrunk(2) this] show ?thesis
    using shrunk(1,5) by simp
qed

lemma AC3_body_decreases:
  assumes "AC3_body csp xi xj queue = Inr (Continue csp' queue')"
  shows "total_size csp' < total_size csp \<or> (csp' = csp \<and> queue' = queue)"
proof -
  obtain revised c where r: "Revise csp xi xj = Inr (revised, c)"
    using assms by (auto simp: AC3_body_def split: sum.splits)
  show ?thesis
    using assms r Revise_total_size[OF r]
    by (auto simp: AC3_body_def split: option.splits if_splits)
qed

termination AC3_loop
proof (relation "measures [\<lambda>(csp, queue). total_size csp, \<lambda>(csp, queue). length queue]")
  show "wf (measures [\<lambda>(csp, queue). total_size csp, \<lambda>(csp, queue :: 'a arc list). length queue])"
    by simp
next
  fix csp :: "'a csp" and xi xj queue x2 x22 csp' queue'
  assume "AC3_body csp xi xj queue = Inr x2" "x2 = Continue csp' queue'"
  then have "AC3_body csp xi xj queue = Inr (Continue csp' queue')" by simp
  from AC3_body_decreases[OF this]
  show "((csp', queue'), csp, (xi, xj) # queue)
        \<in> measures [\<lambda>(csp, queue). total_size csp, \<lambda>(csp, queue). length queue]"
    by auto
qed

text \<open>Lines 71-102.\<close>

definition AC3 :: "'v csp \<Rightarrow> error + (bool \<times> 'v csp)" where
  "AC3 csp =
     (case initial_queue csp (variables csp) of
        Inl e \<Rightarrow> Inl e
      | Inr queue \<Rightarrow> AC3_loop csp queue)"

text \<open>
  One model narrows another when nothing but the domains differs and every domain of the
  first is a subset of the same variable's domain in the second.
\<close>

definition narrows :: "'v csp \<Rightarrow> 'v csp \<Rightarrow> bool" where
  "narrows csp' csp \<longleftrightarrow>
     variables csp' = variables csp \<and> neighbors csp' = neighbors csp \<and>
     (\<forall>v. rel_option (|\<subseteq>|) (fmlookup (domains csp') v) (fmlookup (domains csp) v))"

lemma narrows_refl: "narrows csp csp"
  by (simp add: narrows_def option.rel_refl)

lemma narrows_trans:
  assumes "narrows c b" "narrows b a"
  shows "narrows c a"
proof -
  have "rel_option (|\<subseteq>|) (fmlookup (domains c) v) (fmlookup (domains a) v)" for v
    using assms[unfolded narrows_def, THEN conjunct2, THEN conjunct2, THEN spec, of v]
    by (cases "fmlookup (domains c) v"; cases "fmlookup (domains b) v";
        cases "fmlookup (domains a) v") auto
  then show ?thesis using assms by (simp add: narrows_def)
qed

lemma narrows_dom: "narrows csp' csp \<Longrightarrow> fmdom' (domains csp') = fmdom' (domains csp)"
proof -
  assume n: "narrows csp' csp"
  have "v \<in> fmdom' (domains csp') \<longleftrightarrow> v \<in> fmdom' (domains csp)" for v
    using n[unfolded narrows_def, THEN conjunct2, THEN conjunct2, THEN spec, of v]
    by (cases "fmlookup (domains csp') v"; cases "fmlookup (domains csp) v")
       (auto simp: fmlookup_dom'_iff)
  then show ?thesis by blast
qed


lemma narrows_update:
  assumes "fmlookup (domains csp) xi = Some di" "d' |\<subseteq>| di"
  shows "narrows (csp\<lparr>domains := fmupd xi d' (domains csp)\<rparr>) csp"
  using assms by (simp add: narrows_def option.rel_refl)

lemma Revise_narrows:
  assumes "Revise csp xi xj = Inr (revised, csp')"
  shows "narrows csp' csp"
  using assms
proof (cases rule: Revise_cases)
  case unchanged
  then show ?thesis by (simp add: narrows_refl)
next
  case (shrunk di dj)
  show ?thesis unfolding shrunk(5) by (rule narrows_update[OF shrunk(2)]) auto
qed

lemma narrows_domain_size:
  assumes "narrows csp' csp"
  shows "domain_size csp' v \<le> domain_size csp v"
  using assms[unfolded narrows_def, THEN conjunct2, THEN conjunct2, THEN spec, of v]
  by (cases "fmlookup (domains csp') v"; cases "fmlookup (domains csp) v")
     (auto simp: domain_size_def fcard_mono)

lemma narrows_total_size:
  assumes "narrows csp' csp"
  shows "total_size csp' \<le> total_size csp"
  using narrows_domain_size[OF assms] narrows_dom[OF assms]
  by (simp add: total_size_def sum_mono)

lemma AC3_body_narrows:
  assumes "AC3_body csp xi xj queue = Inr it"
  shows "case it of Return b c \<Rightarrow> narrows c csp | Continue c q \<Rightarrow> narrows c csp"
proof -
  obtain revised c where r: "Revise csp xi xj = Inr (revised, c)"
    using assms by (auto simp: AC3_body_def split: sum.splits)
  show ?thesis
    using assms r Revise_narrows[OF r]
    by (auto simp: AC3_body_def split: option.splits if_splits)
qed

lemma AC3_loop_narrows:
  "AC3_loop csp queue = Inr (b, csp') \<Longrightarrow> narrows csp' csp"
proof (induction csp queue rule: AC3_loop.induct)
  case (1 csp)
  then show ?case by (simp add: narrows_refl)
next
  case (2 csp xi xj queue)
  from "2.prems" obtain it where it: "AC3_body csp xi xj queue = Inr it"
    by (auto split: sum.splits)
  show ?case
  proof (cases it)
    case (Return b' c)
    then show ?thesis using "2.prems" it AC3_body_narrows[OF it] by simp
  next
    case (Continue c q)
    have "narrows csp' c" using "2.IH"[OF it Continue] "2.prems" it Continue by simp
    moreover have "narrows c csp" using AC3_body_narrows[OF it] Continue by simp
    ultimately show ?thesis by (rule narrows_trans)
  qed
qed

lemma AC3_narrows: "AC3 csp = Inr (b, csp') \<Longrightarrow> narrows csp' csp"
  by (auto simp: AC3_def split: sum.splits dest: AC3_loop_narrows)

section \<open>Search\<close>

text \<open>Lines 125-132: \<^verbatim>\<open>all(len(domain) == 1 for domain in csp.domains.values())\<close>.\<close>

definition is_solved :: "'v csp \<Rightarrow> bool" where
  "is_solved csp = fBall (fmran (domains csp)) (\<lambda>domain. fcard domain = 1)"

text \<open>
  Line 141: the list comprehension keeps the variables with more than one value, in the
  order of \<^verbatim>\<open>csp.variables\<close>, and raises \<^verbatim>\<open>KeyError\<close> at a variable without a domain.
\<close>

fun unassigned :: "'v csp \<Rightarrow> 'v list \<Rightarrow> error + 'v list" where
  "unassigned csp [] = Inr []"
| "unassigned csp (v # vs) =
     (case fmlookup (domains csp) v of
        None \<Rightarrow> Inl KeyError
      | Some d \<Rightarrow>
          (case unassigned csp vs of
             Inl e \<Rightarrow> Inl e
           | Inr us \<Rightarrow> Inr (if fcard d > 1 then v # us else us)))"

text \<open>
  Python's \<^verbatim>\<open>min(xs, key=k, default=None)\<close>: the first element whose key is smallest (a
  later element replaces the current best only when its key is strictly smaller).
\<close>

fun py_min :: "('a \<Rightarrow> nat) \<Rightarrow> 'a list \<Rightarrow> 'a option" where
  "py_min key [] = None"
| "py_min key (x # xs) = Some (foldl (\<lambda>best y. if key y < key best then y else best) x xs)"

text \<open>
  Lines 134-143. The key \<^verbatim>\<open>len(csp.domains[var])\<close> is only evaluated at variables that
  passed the lookup of line 141, so its lookup cannot fail.
\<close>

definition select_unassigned_variable :: "'v csp \<Rightarrow> error + 'v option" where
  "select_unassigned_variable csp =
     (case unassigned csp (variables csp) of
        Inl e \<Rightarrow> Inl e
      | Inr us \<Rightarrow> Inr (py_min (domain_size csp) us))"

text \<open>
  \<^verbatim>\<open>set(value)\<close>: the set of the characters of a string, each a one-character string;
  an integer is not iterable.
\<close>

definition py_set :: "pyval \<Rightarrow> error + pyval fset" where
  "py_set val =
     (case val of
        Str s \<Rightarrow> Inr (fset_of_list (map (\<lambda>c. Str [c]) s))
      | Num i \<Rightarrow> Inl TypeError)"

text \<open>
  \<^verbatim>\<open>sorted\<close> of a set of values. Strings are ordered lexicographically by code point and
  integers by value; a comparison of a string with an integer raises \<^verbatim>\<open>TypeError\<close>,
  and a sort cannot order a set with both kinds without making one.
\<close>

definition py_sorted :: "pyval fset \<Rightarrow> error + pyval list" where
  "py_sorted d =
     (if fBall d is_Str then Inr (map Str (sorted_list_of_set (un_Str ` fset d)))
      else if fBall d is_Num then Inr (map Num (sorted_list_of_set (un_Num ` fset d)))
      else Inl TypeError)"

text \<open>
  Lines 160-161: \<^verbatim>\<open>new_csp = copy.deepcopy(csp); new_csp.domains[var] = set(value)\<close>.
  In this value-passing model the copy is the model itself; the two objects and what is
  written to which are the subject of the section on the store.
\<close>

definition collapse :: "'v csp \<Rightarrow> 'v \<Rightarrow> pyval \<Rightarrow> error + 'v csp" where
  "collapse csp var val =
     (case py_set val of
        Inl e \<Rightarrow> Inl e
      | Inr s \<Rightarrow> Inr (csp\<lparr>domains := fmupd var s (domains csp)\<rparr>))"

text \<open>
  Lines 159-168, the shape of the \<^verbatim>\<open>for\<close> loop: the candidates are tried in order, the
  first truthy result is returned at once, an exception leaves the loop, and
  \<^verbatim>\<open>False\<close> (here \<open>None\<close>) is returned when no candidate is left.
\<close>

fun first_result :: "('a \<Rightarrow> error + 'r option) \<Rightarrow> 'a list \<Rightarrow> error + 'r option" where
  "first_result f [] = Inr None"
| "first_result f (x # xs) =
     (case f x of
        Inl e \<Rightarrow> Inl e
      | Inr (Some r) \<Rightarrow> Inr (Some r)
      | Inr None \<Rightarrow> first_result f xs)"

lemma first_result_cong [fundef_cong]:
  "xs = ys \<Longrightarrow> (\<And>x. x \<in> set ys \<Longrightarrow> f x = g x) \<Longrightarrow> first_result f xs = first_result g ys"
  by (induction ys arbitrary: xs) (auto split: sum.splits option.splits)

text \<open>
  The measure of the recursion of \<open>backtrack\<close>. A one-character string weighs 1 and a longer
  or empty string more than all its characters together, so that replacing a domain of
  several values by the \<^verbatim>\<open>set\<close> of one of them makes the model lighter.
\<close>

fun value_weight :: "pyval \<Rightarrow> nat" where
  "value_weight (Str s) = (if length s = 1 then 1 else length s + 2)"
| "value_weight (Num i) = 1"

definition domain_weight :: "'v csp \<Rightarrow> 'v \<Rightarrow> nat" where
  "domain_weight csp v =
     (case fmlookup (domains csp) v of None \<Rightarrow> 0 | Some d \<Rightarrow> sum value_weight (fset d))"

definition weight :: "'v csp \<Rightarrow> nat" where
  "weight csp = sum (domain_weight csp) (fmdom' (domains csp))"

lemma value_weight_pos: "0 < value_weight x"
  by (cases x) simp_all

lemma weight_shrink:
  assumes "fmlookup (domains csp) xi = Some di"
    and "sum value_weight (fset d') < sum value_weight (fset di)"
  shows "weight (csp\<lparr>domains := fmupd xi d' (domains csp)\<rparr>) < weight csp"
proof -
  let ?D = "domains csp"
  let ?c = "csp\<lparr>domains := fmupd xi d' ?D\<rparr>"
  have xi: "xi \<in> fmdom' ?D" using assms(1) by (simp add: fmdom'I)
  have lt: "domain_weight ?c xi < domain_weight csp xi"
    using assms by (simp add: domain_weight_def)
  have eq: "\<And>k. k \<noteq> xi \<Longrightarrow> domain_weight ?c k = domain_weight csp k"
    by (simp add: domain_weight_def)
  have "sum (domain_weight ?c) (fmdom' ?D) < sum (domain_weight csp) (fmdom' ?D)"
  proof (rule sum_strict_mono_ex1)
    show "finite (fmdom' ?D)" by simp
    show "\<forall>k \<in> fmdom' ?D. domain_weight ?c k \<le> domain_weight csp k"
    proof
      fix k
      show "domain_weight ?c k \<le> domain_weight csp k"
        using lt eq[of k] by (cases "k = xi") simp_all
    qed
    show "\<exists>k \<in> fmdom' ?D. domain_weight ?c k < domain_weight csp k"
      using xi lt by blast
  qed
  then show ?thesis by (simp add: weight_def insert_absorb[OF xi])
qed

lemma sum_value_weight_mono:
  "d' |\<subseteq>| d \<Longrightarrow> sum value_weight (fset d') \<le> sum value_weight (fset d)"
  by (rule sum_mono2) (auto simp: less_eq_fset.rep_eq)

lemma narrows_domain_weight:
  assumes "narrows csp' csp"
  shows "domain_weight csp' v \<le> domain_weight csp v"
  using assms[unfolded narrows_def, THEN conjunct2, THEN conjunct2, THEN spec, of v]
  by (cases "fmlookup (domains csp') v"; cases "fmlookup (domains csp) v")
     (auto simp: domain_weight_def sum_value_weight_mono)

lemma narrows_weight:
  assumes "narrows csp' csp"
  shows "weight csp' \<le> weight csp"
  using narrows_domain_weight[OF assms] narrows_dom[OF assms]
  by (simp add: weight_def sum_mono)

lemma py_sorted_set: "py_sorted d = Inr vals \<Longrightarrow> set vals = fset d"
proof -
  assume a: "py_sorted d = Inr vals"
  show ?thesis
  proof (cases "fBall d is_Str")
    case True
    then have "Str ` un_Str ` fset d = fset d" by (force simp: image_iff)
    with a True show ?thesis by (auto simp: py_sorted_def)
  next
    case False
    with a have i: "fBall d is_Num" by (auto simp: py_sorted_def split: if_splits)
    then have "Num ` un_Num ` fset d = fset d" by (force simp: image_iff)
    with a False i show ?thesis by (auto simp: py_sorted_def)
  qed
qed

lemma sum_chars_le: "sum value_weight (fset (fset_of_list (map (\<lambda>c. Str [c]) s))) \<le> length s"
proof -
  have "sum value_weight (fset (fset_of_list (map (\<lambda>c. Str [c]) s)))
          = sum (\<lambda>x. 1) ((\<lambda>c. Str [c]) ` set s)"
    unfolding fset_of_list.rep_eq set_map by (rule sum.cong) auto
  also have "\<dots> = card ((\<lambda>c. Str [c]) ` set s)" by simp
  also have "\<dots> \<le> card (set s)" by (rule card_image_le) simp
  also have "\<dots> \<le> length s" by (rule card_length)
  finally show ?thesis .
qed

lemma collapse_weight:
  assumes d: "fmlookup (domains csp) var = Some d" and c: "1 < fcard d" and v: "val |\<in>| d"
    and n: "collapse csp var val = Inr new_csp"
  shows "weight new_csp < weight csp"
proof -
  from n obtain s where s: "val = Str s"
    and new: "new_csp = csp\<lparr>domains := fmupd var (fset_of_list (map (\<lambda>c. Str [c]) s)) (domains csp)\<rparr>"
    by (cases val) (auto simp: collapse_def py_set_def)
  have le: "value_weight val \<le> sum value_weight (fset d)"
    using v by (intro member_le_sum) auto
  have "sum value_weight (fset (fset_of_list (map (\<lambda>c. Str [c]) s))) < sum value_weight (fset d)"
  proof (cases "length s = 1")
    case False
    then have "length s < value_weight val" by (simp add: s)
    with sum_chars_le[of s] le show ?thesis by simp
  next
    case True
    then obtain ch where ch: "s = [ch]" by (cases s) auto
    have "\<exists>other. other |\<in>| d \<and> other \<noteq> val"
    proof (rule ccontr)
      assume "\<not> (\<exists>other. other |\<in>| d \<and> other \<noteq> val)"
      with v have "d = {|val|}" by blast
      with c show False by (simp add: fcard.rep_eq)
    qed
    then obtain other where o: "other |\<in>| d" "other \<noteq> val" by blast
    have "sum value_weight {val, other} \<le> sum value_weight (fset d)"
      using v o by (intro sum_mono2) auto
    moreover have "sum value_weight {val, other} = value_weight val + value_weight other"
      using o(2) by simp
    ultimately have "1 < sum value_weight (fset d)"
      using value_weight_pos[of other] by (simp add: s ch)
    then show ?thesis by (simp add: ch)
  qed
  from weight_shrink[OF d this] new show ?thesis by simp
qed

lemma unassigned_filter:
  "unassigned csp vs = Inr us \<Longrightarrow> us = filter (\<lambda>v. 1 < domain_size csp v) vs \<and> set vs \<subseteq> fmdom' (domains csp)"
  by (induction vs arbitrary: us)
     (auto simp: domain_size_def fmdom'I split: option.splits sum.splits if_splits)

lemma py_min_in: "py_min key xs = Some v \<Longrightarrow> v \<in> set xs"
proof -
  have "foldl (\<lambda>best y. if key y < key best then y else best) x ys \<in> insert x (set ys)" for x ys
    by (induction ys arbitrary: x) auto
  then show "py_min key xs = Some v \<Longrightarrow> v \<in> set xs"
    by (cases xs) auto
qed

lemma select_Some:
  assumes "select_unassigned_variable csp = Inr (Some var)"
  shows "var \<in> set (variables csp) \<and> 1 < domain_size csp var"
proof -
  from assms obtain us where us: "unassigned csp (variables csp) = Inr us"
    and m: "py_min (domain_size csp) us = Some var"
    by (auto simp: select_unassigned_variable_def split: sum.splits)
  from py_min_in[OF m] unassigned_filter[OF us] show ?thesis by auto
qed

lemma backtrack_descent:
  assumes sel: "select_unassigned_variable csp = Inr (Some var)"
    and d: "fmlookup (domains csp) var = Some d"
    and vals: "py_sorted d = Inr vals" and val: "val \<in> set vals"
    and new: "collapse csp var val = Inr new_csp"
    and ac: "AC3 new_csp = Inr (is_consistent, revised_csp)"
  shows "weight revised_csp < weight csp"
proof -
  have "1 < domain_size csp var" using select_Some[OF sel] by simp
  with d have "1 < fcard d" by (simp add: domain_size_def)
  moreover from val py_sorted_set[OF vals] have "val |\<in>| d" by simp
  ultimately have "weight new_csp < weight csp"
    using d new by (simp add: collapse_weight)
  moreover have "weight revised_csp \<le> weight new_csp"
    by (rule narrows_weight[OF AC3_narrows[OF ac]])
  ultimately show ?thesis by simp
qed

text \<open>Lines 145-168.\<close>

function backtrack :: "'v csp \<Rightarrow> error + 'v csp option" where
  "backtrack csp =
     (if is_solved csp then Inr (Some csp)
      else
        (case select_unassigned_variable csp of
           Inl e \<Rightarrow> Inl e
         | Inr None \<Rightarrow> Inr None
         | Inr (Some var) \<Rightarrow>
             (case fmlookup (domains csp) var of
                None \<Rightarrow> Inl KeyError
              | Some d \<Rightarrow>
                  (case py_sorted d of
                     Inl e \<Rightarrow> Inl e
                   | Inr vals \<Rightarrow>
                       first_result
                         (\<lambda>val.
                            (case collapse csp var val of
                               Inl e \<Rightarrow> Inl e
                             | Inr new_csp \<Rightarrow>
                                 (case AC3 new_csp of
                                    Inl e \<Rightarrow> Inl e
                                  | Inr (is_consistent, revised_csp) \<Rightarrow>
                                      if is_consistent then backtrack revised_csp
                                      else Inr None)))
                         vals))))"
  by pat_completeness auto

termination backtrack
proof (relation "measure weight")
  show "wf (measure weight)" by simp
next
  fix csp :: "'a csp" and x2 x2a d vals val new_csp x2b is_consistent revised_csp
  assume "select_unassigned_variable csp = Inr x2" "x2 = Some x2a"
    "fmlookup (domains csp) x2a = Some d" "py_sorted d = Inr vals" "val \<in> set vals"
    "collapse csp x2a val = Inr new_csp" "AC3 new_csp = Inr x2b"
    "(is_consistent, revised_csp) = x2b"
  then have "weight revised_csp < weight csp"
    using backtrack_descent[of csp x2a d vals val new_csp is_consistent revised_csp] by simp
  then show "(revised_csp, csp) \<in> measure weight" by simp
qed

declare backtrack.simps [simp del]

lemma backtrack_solved: "is_solved csp \<Longrightarrow> backtrack csp = Inr (Some csp)"
  by (subst backtrack.simps) simp

lemma backtrack_select_error:
  "\<not> is_solved csp \<Longrightarrow> select_unassigned_variable csp = Inl e \<Longrightarrow> backtrack csp = Inl e"
  by (subst backtrack.simps) simp

lemma backtrack_select_None:
  "\<not> is_solved csp \<Longrightarrow> select_unassigned_variable csp = Inr None \<Longrightarrow> backtrack csp = Inr None"
  by (subst backtrack.simps) simp

lemma backtrack_lookup_error:
  "\<not> is_solved csp \<Longrightarrow> select_unassigned_variable csp = Inr (Some var) \<Longrightarrow>
   fmlookup (domains csp) var = None \<Longrightarrow> backtrack csp = Inl KeyError"
  by (subst backtrack.simps) simp

lemma backtrack_sorted_error:
  "\<not> is_solved csp \<Longrightarrow> select_unassigned_variable csp = Inr (Some var) \<Longrightarrow>
   fmlookup (domains csp) var = Some d \<Longrightarrow> py_sorted d = Inl e \<Longrightarrow> backtrack csp = Inl e"
  by (subst backtrack.simps) simp

lemma backtrack_branch:
  "\<not> is_solved csp \<Longrightarrow> select_unassigned_variable csp = Inr (Some var) \<Longrightarrow>
   fmlookup (domains csp) var = Some d \<Longrightarrow> py_sorted d = Inr vals \<Longrightarrow>
     backtrack csp =
       first_result
         (\<lambda>val. case collapse csp var val of
                  Inl e \<Rightarrow> Inl e
                | Inr new_csp \<Rightarrow>
                    (case AC3 new_csp of
                       Inl e \<Rightarrow> Inl e
                     | Inr (is_consistent, revised_csp) \<Rightarrow>
                         if is_consistent then backtrack revised_csp else Inr None))
         vals"
  by (subst backtrack.simps) simp

text \<open>
  How a call of \<open>backtrack\<close> that returns a model got it: the argument was solved already,
  or some candidate of the selected variable led, through \<open>collapse\<close> and a consistent
  \<open>AC3\<close>, to a recursive call that returned it.
\<close>

lemma first_result_Some:
  "first_result f xs = Inr (Some r) \<Longrightarrow> \<exists>x \<in> set xs. f x = Inr (Some r)"
  by (induction xs) (auto split: sum.splits option.splits)

lemma backtrack_Some_cases:
  assumes "backtrack csp = Inr (Some solution)"
  obtains (solved) "is_solved csp" "solution = csp"
  | (branch) var d vals val new_csp revised_csp where
      "\<not> is_solved csp" "select_unassigned_variable csp = Inr (Some var)"
      "fmlookup (domains csp) var = Some d" "py_sorted d = Inr vals" "val \<in> set vals"
      "collapse csp var val = Inr new_csp" "AC3 new_csp = Inr (True, revised_csp)"
      "backtrack revised_csp = Inr (Some solution)"
proof (cases "is_solved csp")
  case True
  with assms show thesis by (intro solved) (simp_all add: backtrack_solved)
next
  case unsolved: False
  from assms unsolved obtain var where sel: "select_unassigned_variable csp = Inr (Some var)"
    by (subst (asm) backtrack.simps) (auto split: sum.splits option.splits)
  from assms unsolved sel obtain d where d: "fmlookup (domains csp) var = Some d"
    by (subst (asm) backtrack.simps) (auto split: option.splits)
  from assms unsolved sel d obtain vals where vals: "py_sorted d = Inr vals"
    by (subst (asm) backtrack.simps) (auto split: sum.splits)
  from assms backtrack_branch[OF unsolved sel d vals]
  have "first_result
         (\<lambda>val. case collapse csp var val of
                  Inl e \<Rightarrow> Inl e
                | Inr new_csp \<Rightarrow>
                    (case AC3 new_csp of
                       Inl e \<Rightarrow> Inl e
                     | Inr (is_consistent, revised_csp) \<Rightarrow>
                         if is_consistent then backtrack revised_csp else Inr None))
         vals = Inr (Some solution)"
    by simp
  from first_result_Some[OF this] obtain val where val: "val \<in> set vals"
    and f: "(case collapse csp var val of
                  Inl e \<Rightarrow> Inl e
                | Inr new_csp \<Rightarrow>
                    (case AC3 new_csp of
                       Inl e \<Rightarrow> Inl e
                     | Inr (is_consistent, revised_csp) \<Rightarrow>
                         if is_consistent then backtrack revised_csp else Inr None))
            = Inr (Some solution)"
    by blast
  from f obtain new_csp where new: "collapse csp var val = Inr new_csp"
    by (cases "collapse csp var val") simp_all
  from f new obtain revised_csp where "AC3 new_csp = Inr (True, revised_csp)"
    "backtrack revised_csp = Inr (Some solution)"
    by (auto split: sum.splits if_splits)
  with unsolved sel d vals val new show thesis by (intro branch)
qed

section \<open>The loader\<close>

text \<open>
  Lines 18-69. The argument is the list that \<^verbatim>\<open>f.readlines()\<close> returns. A Python string
  is the list of its characters; \<^verbatim>\<open>str.isspace\<close> holds of the code points 9-13, 28-32,
  133 and 160 among those below 256.
\<close>

definition isspace :: "char \<Rightarrow> bool" where
  "isspace c = ((of_char c :: nat) \<in> {9, 10, 11, 12, 13, 28, 29, 30, 31, 32, 133, 160})"

definition strip :: "string \<Rightarrow> string" where
  "strip s = rev (dropWhile isspace (rev (dropWhile isspace s)))"

text \<open>\<^verbatim>\<open>str.split()\<close> without arguments: the maximal runs of characters that are not spaces.\<close>

fun split_from :: "string \<Rightarrow> string \<Rightarrow> string list" where
  "split_from word [] = (if word = [] then [] else [word])"
| "split_from word (c # cs) =
     (if isspace c then (if word = [] then split_from [] cs else word # split_from [] cs)
      else split_from (word @ [c]) cs)"

definition split :: "string \<Rightarrow> string list" where
  "split s = split_from [] s"

text \<open>\<^verbatim>\<open>needle in hay\<close> on two strings: \<^verbatim>\<open>needle\<close> occurs in \<^verbatim>\<open>hay\<close> as a substring.\<close>

fun str_in :: "string \<Rightarrow> string \<Rightarrow> bool" where
  "str_in needle [] = (needle = [])"
| "str_in needle (h # hay) = (take (length needle) (h # hay) = needle \<or> str_in needle hay)"

definition rows :: string where "rows = ''ABCDEFGHI''"
definition cols :: string where "cols = ''123456789''"

text \<open>Line 27.\<close>

definition sudoku_variables :: "string list" where
  "sudoku_variables = concat (map (\<lambda>r. map (\<lambda>c. [r, c]) cols) rows)"

text \<open>
  Lines 40-47, the cells of one line. The line has nine cells when this loop runs, so
  \<^verbatim>\<open>cols[j]\<close> is the column paired with the cell.
\<close>

fun parse_cells ::
  "(string, pyval fset) fmap \<Rightarrow> char \<Rightarrow> (char \<times> string) list \<Rightarrow> error + (string, pyval fset) fmap"
where
  "parse_cells doms r [] = Inr doms"
| "parse_cells doms r ((c, val) # rest) =
     (if str_in val ''123456789'' then parse_cells (fmupd [r, c] (fset_of_list (map (\<lambda>ch. Str [ch]) val)) doms) r rest
      else if str_in val ''.0'' then parse_cells doms r rest
      else Inl (ValueError (Invalid_character val)))"

text \<open>Lines 36-47; \<open>i\<close> is the index of \<^verbatim>\<open>enumerate\<close>.\<close>

fun parse_lines ::
  "(string, pyval fset) fmap \<Rightarrow> nat \<Rightarrow> (char \<times> string) list \<Rightarrow> error + (string, pyval fset) fmap"
where
  "parse_lines doms i [] = Inr doms"
| "parse_lines doms i ((r, line) # rest) =
     (let parts = split (strip line) in
      if length parts \<noteq> 9 then Inl (ValueError (Not_9_cells (i + 1)))
      else (case parse_cells doms r (zip cols parts) of
              Inl e \<Rightarrow> Inl e
            | Inr doms' \<Rightarrow> parse_lines doms' (i + 1) rest))"

text \<open>Lines 28 and 32-47.\<close>

definition parse_domains :: "string list \<Rightarrow> error + (string, pyval fset) fmap" where
  "parse_domains lines =
     (if length lines \<noteq> 9 then Inl (ValueError Not_9_lines)
      else parse_lines (fmap_of_list (map (\<lambda>var. (var, fset_of_list (map (\<lambda>ch. Str [ch]) ''123456789''))) sudoku_variables)) 0
             (zip rows lines))"

text \<open>
  Lines 50-67: the cells of the row, of the column and of the 3 by 3 box of a cell, the cell
  itself left out. \<^verbatim>\<open>ord\<close> and \<^verbatim>\<open>chr\<close> are \<^const>\<open>of_char\<close> and \<^const>\<open>char_of\<close>;
  \<^verbatim>\<open>int\<close> and \<^verbatim>\<open>str\<close> on one digit subtract and add the code of \<^verbatim>\<open>'0'\<close>.
\<close>

definition sudoku_neighbors :: "string \<Rightarrow> string list" where
  "sudoku_neighbors var =
     (let row = var ! 0; col = var ! 1;
          row_vars = filter (\<lambda>cell. cell \<noteq> var) (map (\<lambda>c_j. [row, c_j]) cols);
          col_vars = filter (\<lambda>cell. cell \<noteq> var) (map (\<lambda>r_j. [r_j, col]) rows);
          box_row_start = ((of_char row - of_char CHR ''A'') div 3) * 3 + of_char CHR ''A'';
          box_col_start = ((of_char col - of_char CHR ''0'' - 1) div 3) * 3 + (1 :: nat);
          box_vars = filter (\<lambda>cell. cell \<noteq> var)
            (concat (map (\<lambda>r. map (\<lambda>c. [char_of (r :: nat), char_of (of_char CHR ''0'' + c)])
                                  [box_col_start ..< box_col_start + 3])
                         [box_row_start ..< box_row_start + 3]))
      in remdups (row_vars @ col_vars @ box_vars))"

definition parse_sudoku :: "string list \<Rightarrow> error + string csp" where
  "parse_sudoku lines =
     (case parse_domains lines of
        Inl e \<Rightarrow> Inl e
      | Inr doms \<Rightarrow>
          Inr \<lparr>variables = sudoku_variables, domains = doms,
               neighbors = fmap_of_list (map (\<lambda>var. (var, sudoku_neighbors var)) sudoku_variables)\<rparr>)"

section \<open>The driver\<close>

text \<open>
  Lines 198-214 of \<^verbatim>\<open>main\<close>. Each of the four ways through the function is one outcome:
  the return of line 202, the branch of lines 205-206, and the two branches after the call
  of \<^verbatim>\<open>backtrack\<close> in line 209. The printing of the grid is not modelled.
\<close>

datatype 'm outcome =
  No_solution_after_AC3
| Solved_by_AC3 'm
| Solved_by_backtracking 'm
| No_solution_after_backtracking

definition solve :: "'v csp \<Rightarrow> error + 'v csp outcome" where
  "solve csp =
     (case AC3 csp of
        Inl e \<Rightarrow> Inl e
      | Inr (is_consistent, revised_csp) \<Rightarrow>
          if \<not> is_consistent then Inr No_solution_after_AC3
          else if is_solved revised_csp then Inr (Solved_by_AC3 revised_csp)
          else (case backtrack revised_csp of
                  Inl e \<Rightarrow> Inl e
                | Inr (Some solution) \<Rightarrow> Inr (Solved_by_backtracking solution)
                | Inr None \<Rightarrow> Inr No_solution_after_backtracking))"

text \<open>Lines 187-214.\<close>

definition main :: "string list \<Rightarrow> error + string csp outcome" where
  "main lines = (case parse_sudoku lines of Inl e \<Rightarrow> Inl e | Inr csp \<Rightarrow> solve csp)"

section \<open>The store\<close>

text \<open>
  \<open>AC3\<close> and \<open>Revise\<close> write into the object they are given, and \<open>backtrack\<close> hands a
  copy of its argument to them. To tell the objects apart the models live in a store: a
  list of models, a reference to a model being its index. A cell of the store holds the
  whole object graph of one \<^verbatim>\<open>CSP\<close> object: the list, the two dicts and the sets in
  them, none of which is shared with another \<^verbatim>\<open>CSP\<close> object.
\<close>

type_synonym 'v store = "'v csp list"

text \<open>
  Line 160, \<^verbatim>\<open>copy.deepcopy(csp)\<close>: a new object with the contents of the old one, at a
  fresh address.
\<close>

definition deepcopy :: "'v store \<Rightarrow> nat \<Rightarrow> 'v store \<times> nat" where
  "deepcopy store csp = (store @ [store ! csp], length store)"

text \<open>Line 161, \<^verbatim>\<open>new_csp.domains[var] = set(value)\<close>, a write into the object \<^verbatim>\<open>new_csp\<close>.\<close>

definition collapse_in_place :: "'v store \<Rightarrow> nat \<Rightarrow> 'v \<Rightarrow> pyval \<Rightarrow> error + 'v store" where
  "collapse_in_place store csp var val =
     (case collapse (store ! csp) var val of
        Inl e \<Rightarrow> Inl e
      | Inr csp' \<Rightarrow> Inr (store[csp := csp']))"

text \<open>
  Lines 71-102 on a reference: the writes of \<^verbatim>\<open>Revise\<close> (line 119) all go to the object
  passed in, and the reference returned (lines 96 and 102) is the one passed in.
\<close>

definition AC3_in_place :: "'v store \<Rightarrow> nat \<Rightarrow> error + ('v store \<times> bool \<times> nat)" where
  "AC3_in_place store csp =
     (case AC3 (store ! csp) of
        Inl e \<Rightarrow> Inl e
      | Inr (is_consistent, csp') \<Rightarrow> Inr (store[csp := csp'], is_consistent, csp))"

text \<open>The \<^verbatim>\<open>for\<close> loop of lines 159-168 with the store passed from one round to the next.\<close>

fun first_result_st ::
  "('a \<Rightarrow> 's \<Rightarrow> (error + 's \<times> 'r option) option) \<Rightarrow> 'a list \<Rightarrow> 's \<Rightarrow> (error + 's \<times> 'r option) option"
where
  "first_result_st f [] s = Some (Inr (s, None))"
| "first_result_st f (x # xs) s =
     (case f x s of
        None \<Rightarrow> None
      | Some (Inl e) \<Rightarrow> Some (Inl e)
      | Some (Inr (s', Some r)) \<Rightarrow> Some (Inr (s', Some r))
      | Some (Inr (s', None)) \<Rightarrow> first_result_st f xs s')"

text \<open>
  Lines 145-168 on references. The recursion is bounded by fuel: \<open>None\<close> is a run that
  needs more of it.
\<close>

fun backtrack_st :: "nat \<Rightarrow> 'v store \<Rightarrow> nat \<Rightarrow> (error + 'v store \<times> nat option) option" where
  "backtrack_st 0 store csp = None"
| "backtrack_st (Suc fuel) store csp =
     (if is_solved (store ! csp) then Some (Inr (store, Some csp))
      else
        (case select_unassigned_variable (store ! csp) of
           Inl e \<Rightarrow> Some (Inl e)
         | Inr None \<Rightarrow> Some (Inr (store, None))
         | Inr (Some var) \<Rightarrow>
             (case fmlookup (domains (store ! csp)) var of
                None \<Rightarrow> Some (Inl KeyError)
              | Some d \<Rightarrow>
                  (case py_sorted d of
                     Inl e \<Rightarrow> Some (Inl e)
                   | Inr vals \<Rightarrow>
                       first_result_st
                         (\<lambda>val store.
                            (case deepcopy store csp of
                               (store, new_csp) \<Rightarrow>
                                 (case collapse_in_place store new_csp var val of
                                    Inl e \<Rightarrow> Some (Inl e)
                                  | Inr store \<Rightarrow>
                                      (case AC3_in_place store new_csp of
                                         Inl e \<Rightarrow> Some (Inl e)
                                       | Inr (store, is_consistent, revised_csp) \<Rightarrow>
                                           if is_consistent
                                           then backtrack_st fuel store revised_csp
                                           else Some (Inr (store, None))))))
                         vals store))))"

section \<open>Arc consistency\<close>

text \<open>
  The notions the properties of propagation are stated with. The candidates of a variable
  and its neighbours are read off the two dicts, a missing key giving none. The neighbour
  relation is symmetric when every neighbour of a key has that key among its own
  neighbours. An arc \<open>(xi, xj)\<close> is supported when every candidate of \<open>xi\<close> differs from
  some candidate of \<open>xj\<close>; a model is arc-consistent when the arc from every variable to
  each of its neighbours is supported. \<open>pending\<close> is the invariant of the worklist: an arc
  that is not supported is waiting in the queue.
\<close>

definition values_of :: "'v csp \<Rightarrow> 'v \<Rightarrow> pyval set" where
  "values_of csp v = (case fmlookup (domains csp) v of None \<Rightarrow> {} | Some d \<Rightarrow> fset d)"

definition neighbors_of :: "'v csp \<Rightarrow> 'v \<Rightarrow> 'v list" where
  "neighbors_of csp v = (case fmlookup (neighbors csp) v of None \<Rightarrow> [] | Some ns \<Rightarrow> ns)"

definition symmetric_neighbors :: "'v csp \<Rightarrow> bool" where
  "symmetric_neighbors csp \<longleftrightarrow>
     (\<forall>xi \<in> fmdom' (neighbors csp). \<forall>xj \<in> set (neighbors_of csp xi). xi \<in> set (neighbors_of csp xj))"

definition supported :: "'v csp \<Rightarrow> 'v \<Rightarrow> 'v \<Rightarrow> bool" where
  "supported csp xi xj \<longleftrightarrow> (\<forall>x \<in> values_of csp xi. \<exists>y \<in> values_of csp xj. y \<noteq> x)"

definition arc_consistent :: "'v csp \<Rightarrow> bool" where
  "arc_consistent csp \<longleftrightarrow>
     (\<forall>xi \<in> set (variables csp). \<forall>xj \<in> set (neighbors_of csp xi). supported csp xi xj)"

definition pending :: "'v csp \<Rightarrow> 'v arc list \<Rightarrow> bool" where
  "pending csp queue \<longleftrightarrow>
     (\<forall>xi \<in> set (variables csp). \<forall>xj \<in> set (neighbors_of csp xi).
        (xi, xj) \<in> set queue \<or> supported csp xi xj)"

text \<open>The iterations of the loop of \<open>AC3\<close>, as a relation from the state after to the state before.\<close>

definition AC3_iterates :: "(('v csp \<times> 'v arc list) \<times> ('v csp \<times> 'v arc list)) set" where
  "AC3_iterates =
     {((csp', queue'), (csp, queue)).
        \<exists>xi xj rest. queue = (xi, xj) # rest \<and> AC3_body csp xi xj rest = Inr (Continue csp' queue')}"

section \<open>The propagation step as the specification words it\<close>

text \<open>
  The specification describes Revise for a binary predicate \<open>satisfies\<close> that the model is
  said to carry (sections 3 and 4.2): for every value \<open>x\<close> in the domain of \<open>Xi\<close>, check
  whether some \<open>y\<close> in the domain of \<open>Xj\<close> has \<open>satisfies(x, y)\<close>; if there is none, mark
  \<open>x\<close> for removal; if any value was removed, the domain of \<open>Xi\<close> shrinks and this counts
  as revised. This definition follows those words, with the predicate as an argument; it
  is what \<open>Revise\<close> is compared with.
\<close>

definition Revise_spec ::
  "(pyval \<Rightarrow> pyval \<Rightarrow> bool) \<Rightarrow> 'v csp \<Rightarrow> 'v \<Rightarrow> 'v \<Rightarrow> error + (bool \<times> 'v csp)"
where
  "Revise_spec satisfies csp xi xj =
     (case fmlookup (domains csp) xi of
        None \<Rightarrow> Inl KeyError
      | Some di \<Rightarrow>
          if di = {||} then Inr (False, csp)
          else (case fmlookup (domains csp) xj of
                  None \<Rightarrow> Inl KeyError
                | Some dj \<Rightarrow>
                    let to_remove = ffilter (\<lambda>x. \<not> (\<exists>y \<in> fset dj. satisfies x y)) di in
                    if to_remove \<noteq> {||}
                    then Inr (True, csp\<lparr>domains := fmupd xi (di |-| to_remove) (domains csp)\<rparr>)
                    else Inr (False, csp)))"

section \<open>Example models\<close>

text \<open>
  Three cells that are pairwise neighbours, with the candidates \<open>{1, 2}\<close>, \<open>{1}\<close> and
  \<open>{1, 2, 3}\<close>.
\<close>

definition three_cells :: "nat csp" where
  "three_cells =
     \<lparr>variables = [0, 1, 2],
      domains = fmap_of_list
        [(0, {|Str ''1'', Str ''2''|}), (1, {|Str ''1''|}), (2, {|Str ''1'', Str ''2'', Str ''3''|})],
      neighbors = fmap_of_list [(0, [1, 2]), (1, [0, 2]), (2, [0, 1])]\<rparr>"

text \<open>
  A model is well-formed when every variable is a key of both dicts and the neighbours of a
  variable are variables; the loader builds such models, and on them no lookup of the
  solver fails. A worklist is between variables when both ends of each of its arcs are.
\<close>

definition well_formed :: "'v csp \<Rightarrow> bool" where
  "well_formed csp \<longleftrightarrow>
     set (variables csp) \<subseteq> fmdom' (domains csp) \<and>
     set (variables csp) \<subseteq> fmdom' (neighbors csp) \<and>
     (\<forall>v \<in> set (variables csp). set (neighbors_of csp v) \<subseteq> set (variables csp))"

definition between_variables :: "'v csp \<Rightarrow> 'v arc list \<Rightarrow> bool" where
  "between_variables csp queue \<longleftrightarrow>
     (\<forall>(a, b) \<in> set queue. a \<in> set (variables csp) \<and> b \<in> set (variables csp))"

text \<open>Two cells that are neighbours of each other and both hold the clue 5.\<close>

definition equal_pair :: "nat csp" where
  "equal_pair =
     \<lparr>variables = [0, 1],
      domains = fmap_of_list [(0, {|Str ''5''|}), (1, {|Str ''5''|})],
      neighbors = fmap_of_list [(0, [1]), (1, [0])]\<rparr>"

text \<open>Two cells that are neighbours of each other, both with the candidates 1 and 2.\<close>

definition two_open :: "nat csp" where
  "two_open =
     \<lparr>variables = [0, 1],
      domains = fmap_of_list [(0, {|Str ''1'', Str ''2''|}), (1, {|Str ''1'', Str ''2''|})],
      neighbors = fmap_of_list [(0, [1]), (1, [0])]\<rparr>"

text \<open>
  A puzzle file of nine lines of nine cells, as \<^verbatim>\<open>readlines\<close> returns it; the first cell
  of the first line is the token \<^verbatim>\<open>12\<close>, every other cell is a dot.
\<close>

definition blank_row :: string where
  "blank_row = ''. . . . . . . . .'' @ [CHR 0x0A]"

definition two_digit_file :: "string list" where
  "two_digit_file =
     (''12 . . . . . . . .'' @ [CHR 0x0A]) #
     [blank_row, blank_row, blank_row, blank_row, blank_row, blank_row, blank_row, blank_row]"







text \<open>One cell whose candidates are the two-character strings 10 and 11.\<close>

definition long_values :: "nat csp" where
  "long_values =
     \<lparr>variables = [0],
      domains = fmap_of_list [(0, {|Str ''10'', Str ''11''|})],
      neighbors = fmap_of_list [(0, [])]\<rparr>"

text \<open>
  Three cells that are pairwise neighbours, with the candidates \<open>{1, 2}\<close>, \<open>{1, 3}\<close> and
  \<open>{1, 3}\<close>: the first candidate of the first cell leads nowhere. The store after the
  search on it holds, behind the model itself, the copy on which the candidate 1 failed,
  the copy for the candidate 2, and the copy of that one in which the search ended.
\<close>

definition dead_end_first :: "nat csp" where
  "dead_end_first =
     \<lparr>variables = [0, 1, 2],
      domains = fmap_of_list
        [(0, {|Str ''1'', Str ''2''|}), (1, {|Str ''1'', Str ''3''|}), (2, {|Str ''1'', Str ''3''|})],
      neighbors = fmap_of_list [(0, [1, 2]), (1, [0, 2]), (2, [0, 1])]\<rparr>"

definition searched_store :: "nat store" where
  "searched_store =
     [dead_end_first,
      dead_end_first\<lparr>domains := fmap_of_list [(0, {|Str ''1''|}), (1, {|Str ''3''|}), (2, {||})]\<rparr>,
      dead_end_first\<lparr>domains := fmap_of_list
        [(0, {|Str ''2''|}), (1, {|Str ''1'', Str ''3''|}), (2, {|Str ''1'', Str ''3''|})]\<rparr>,
      dead_end_first\<lparr>domains := fmap_of_list
        [(0, {|Str ''2''|}), (1, {|Str ''1''|}), (2, {|Str ''3''|})]\<rparr>]"

section \<open>Variable selection\<close>

lemma foldl_first_min:
  "\<exists>pre post. x # xs = pre @ foldl (\<lambda>best y. if key y < key best then y else best) x xs # post \<and>
     (\<forall>u \<in> set pre. key (foldl (\<lambda>best y. if key y < key best then y else best) x xs) < (key u :: nat)) \<and>
     (\<forall>u \<in> set post. key (foldl (\<lambda>best y. if key y < key best then y else best) x xs) \<le> key u)"
proof (induction xs rule: rev_induct)
  case Nil
  show ?case by (intro exI[of _ "[]"]) simp
next
  case (snoc y xs)
  let ?f = "\<lambda>best y. if key y < key best then y else best"
  from snoc obtain pre post where s: "x # xs = pre @ foldl ?f x xs # post"
    and p: "\<forall>u \<in> set pre. key (foldl ?f x xs) < key u"
    and q: "\<forall>u \<in> set post. key (foldl ?f x xs) \<le> key u"
    by blast
  show ?case
  proof (cases "key y < key (foldl ?f x xs)")
    case True
    have "\<forall>u \<in> set (x # xs). key y < key u"
    proof
      fix u assume "u \<in> set (x # xs)"
      then have "u \<in> set pre \<or> u = foldl ?f x xs \<or> u \<in> set post"
        by (subst (asm) s) auto
      then show "key y < key u" using True p q by force
    qed
    then show ?thesis using True
      by (intro exI[of _ "x # xs"] exI[of _ "[]"]) simp
  next
    case False
    have "x # xs @ [y] = pre @ foldl ?f x xs # (post @ [y])" using s by simp
    moreover have "\<forall>u \<in> set (post @ [y]). key (foldl ?f x xs) \<le> key u"
      using q False by auto
    ultimately show ?thesis using False p
      by (intro exI[of _ pre] exI[of _ "post @ [y]"]) simp
  qed
qed

lemma py_min_None: "py_min key xs = None \<longleftrightarrow> xs = []"
  by (cases xs) simp_all

lemma py_min_first:
  assumes "py_min key xs = Some v"
  shows "\<exists>pre post. xs = pre @ v # post \<and> (\<forall>u \<in> set pre. key v < (key u :: nat)) \<and>
           (\<forall>u \<in> set post. key v \<le> key u)"
proof (cases xs)
  case Nil
  with assms show ?thesis by simp
next
  case (Cons x ys)
  with assms have v: "v = foldl (\<lambda>best y. if key y < key best then y else best) x ys" by simp
  show ?thesis unfolding Cons v by (rule foldl_first_min)
qed

lemma filter_eq_appendD:
  "filter P xs = ys @ zs \<Longrightarrow> \<exists>us vs. xs = us @ vs \<and> filter P us = ys \<and> filter P vs = zs"
proof (induction xs arbitrary: ys)
  case Nil
  then show ?case by simp
next
  case (Cons x xs)
  show ?case
  proof (cases "P x")
    case False
    with Cons.prems have "filter P xs = ys @ zs" by simp
    from Cons.IH[OF this] obtain us vs where "xs = us @ vs" "filter P us = ys" "filter P vs = zs"
      by blast
    with False have "x # xs = (x # us) @ vs \<and> filter P (x # us) = ys \<and> filter P vs = zs"
      by simp
    then show ?thesis by blast
  next
    case True
    show ?thesis
    proof (cases ys)
      case Nil
      with Cons.prems have "x # xs = [] @ (x # xs) \<and> filter P [] = ys \<and> filter P (x # xs) = zs"
        by simp
      then show ?thesis by blast
    next
      case (Cons y ys')
      with True Cons.prems have y: "y = x" and "filter P xs = ys' @ zs" by simp_all
      from Cons.IH[OF this(2)] obtain us vs where
        "xs = us @ vs" "filter P us = ys'" "filter P vs = zs" by blast
      with True y Cons have "x # xs = (x # us) @ vs \<and> filter P (x # us) = ys \<and> filter P vs = zs"
        by simp
      then show ?thesis by blast
    qed
  qed
qed

lemma unassigned_Inr:
  "set vs \<subseteq> fmdom' (domains csp) \<Longrightarrow>
     unassigned csp vs = Inr (filter (\<lambda>v. 1 < domain_size csp v) vs)"
  by (induction vs) (auto simp: domain_size_def fmlookup_dom'_iff)

lemma unassigned_KeyError:
  "\<not> set vs \<subseteq> fmdom' (domains csp) \<Longrightarrow> unassigned csp vs = Inl KeyError"
proof (induction vs)
  case Nil
  then show ?case by simp
next
  case (Cons v vs)
  show ?case
  proof (cases "fmlookup (domains csp) v")
    case None
    then show ?thesis by simp
  next
    case (Some d)
    then have "v \<in> fmdom' (domains csp)" by (rule fmdom'I)
    with Cons.prems have "\<not> set vs \<subseteq> fmdom' (domains csp)" by simp
    from Cons.IH[OF this] Some show ?thesis by simp
  qed
qed

text \<open>
  Claim C8. When every variable has a domain (otherwise line 141 raises \<^verbatim>\<open>KeyError\<close>),
  \<open>select_unassigned_variable\<close> returns none exactly when no variable has more than one
  value left, whatever the reason; otherwise it returns a variable with more than one value
  such that every variable before it in \<^verbatim>\<open>csp.variables\<close> with more than one value has
  a strictly larger domain, and every such variable after it has a domain at least as large:
  a smallest one, and among the smallest the first.
\<close>

theorem select_unassigned_variable_MRV:
  assumes "set (variables csp) \<subseteq> fmdom' (domains csp)"
  shows "(select_unassigned_variable csp = Inr None \<and>
            (\<forall>u \<in> set (variables csp). \<not> 1 < domain_size csp u)) \<or>
         (\<exists>var pre post. select_unassigned_variable csp = Inr (Some var) \<and>
            variables csp = pre @ var # post \<and> 1 < domain_size csp var \<and>
            (\<forall>u \<in> set pre. 1 < domain_size csp u \<longrightarrow> domain_size csp var < domain_size csp u) \<and>
            (\<forall>u \<in> set post. 1 < domain_size csp u \<longrightarrow> domain_size csp var \<le> domain_size csp u))"
proof -
  let ?P = "\<lambda>v. 1 < domain_size csp v"
  let ?us = "filter ?P (variables csp)"
  have sel: "select_unassigned_variable csp = Inr (py_min (domain_size csp) ?us)"
    using unassigned_Inr[OF assms] by (simp add: select_unassigned_variable_def)
  show ?thesis
  proof (cases "py_min (domain_size csp) ?us")
    case None
    then have "?us = []" by (simp add: py_min_None)
    then have "\<forall>u \<in> set (variables csp). \<not> ?P u" by (simp add: filter_empty_conv)
    with sel None show ?thesis by simp
  next
    case (Some var)
    from py_min_first[OF Some] obtain pre' post' where
      us: "?us = pre' @ var # post'"
      and pre': "\<forall>u \<in> set pre'. domain_size csp var < domain_size csp u"
      and post': "\<forall>u \<in> set post'. domain_size csp var \<le> domain_size csp u"
      by blast
    from us obtain pre rest where v1: "variables csp = pre @ rest"
      and fpre: "filter ?P pre = pre'" and frest: "filter ?P rest = var # post'"
      using filter_eq_appendD[of ?P "variables csp" pre' "var # post'"] by auto
    from frest obtain skipped post where r: "rest = skipped @ var # post"
      and sk: "\<forall>u \<in> set skipped. \<not> ?P u" and pv: "?P var" and fpost: "post' = filter ?P post"
      by (auto simp: filter_eq_Cons_iff)
    have "variables csp = (pre @ skipped) @ var # post" using v1 r by simp
    moreover have "\<forall>u \<in> set (pre @ skipped). ?P u \<longrightarrow> domain_size csp var < domain_size csp u"
      using pre' fpre sk by auto
    moreover have "\<forall>u \<in> set post. ?P u \<longrightarrow> domain_size csp var \<le> domain_size csp u"
      using post' fpost by auto
    ultimately have "\<exists>var pre post. select_unassigned_variable csp = Inr (Some var) \<and>
            variables csp = pre @ var # post \<and> 1 < domain_size csp var \<and>
            (\<forall>u \<in> set pre. 1 < domain_size csp u \<longrightarrow> domain_size csp var < domain_size csp u) \<and>
            (\<forall>u \<in> set post. 1 < domain_size csp u \<longrightarrow> domain_size csp var \<le> domain_size csp u)"
      using sel Some pv
      by (intro exI[of _ var] exI[of _ "pre @ skipped"] exI[of _ post]) simp
    then show ?thesis by (rule disjI2)
  qed
qed


theorem select_unassigned_variable_MRV_witness:
  "set (variables three_cells) \<subseteq> fmdom' (domains three_cells) \<and>
   select_unassigned_variable three_cells = Inr (Some 0) \<and>
   ((select_unassigned_variable three_cells = Inr None \<and>
       (\<forall>u \<in> set (variables three_cells). \<not> 1 < domain_size three_cells u)) \<or>
    (\<exists>var pre post. select_unassigned_variable three_cells = Inr (Some var) \<and>
       variables three_cells = pre @ var # post \<and> 1 < domain_size three_cells var \<and>
       (\<forall>u \<in> set pre. 1 < domain_size three_cells u \<longrightarrow>
          domain_size three_cells var < domain_size three_cells u) \<and>
       (\<forall>u \<in> set post. 1 < domain_size three_cells u \<longrightarrow>
          domain_size three_cells var \<le> domain_size three_cells u)))"
proof -
  have h: "set (variables three_cells) \<subseteq> fmdom' (domains three_cells)"
    by code_simp
  have s: "select_unassigned_variable three_cells = Inr (Some 0)"
    by code_simp
  show ?thesis
    using h s select_unassigned_variable_MRV[OF h] by blast
qed

section \<open>The constraint is fixed\<close>

text \<open>
  Claim C3 says that the model stores the constraint as a function handed over at
  construction and that \<open>Revise\<close> evaluates it. The class has the three fields of the
  record \<open>csp\<close> and no predicate, and \<open>Revise\<close> tests \<^verbatim>\<open>y != x\<close>. With the predicate
  ``the values are equal'' the specified step removes \<open>2\<close> from the candidates \<open>{1, 2}\<close> of
  cell 0 against the candidates \<open>{1}\<close> of cell 1; the code removes \<open>1\<close>.
\<close>

theorem Revise_not_pluggable:
  "Revise three_cells 0 1 \<noteq> Revise_spec (=) three_cells 0 1"
  by code_simp

text \<open>
  Claim C3 as amended. \<open>Revise\<close> is the specified step for one predicate, ``the values
  differ'', on every model and every arc.
\<close>

theorem Revise_is_all_different:
  "Revise csp xi xj = Revise_spec (\<lambda>x y. y \<noteq> x) csp xi xj"
  by (simp add: Revise_def Revise_spec_def)

section \<open>Termination of propagation\<close>

text \<open>
  Claim C6. The loop of \<open>AC3\<close> cannot run forever: the relation between the state of the
  loop after an iteration and the state before it is well-founded, on every model and
  worklist (domains are finite sets and dicts are finite maps). The reason is the one the
  specification gives: an iteration that goes on either leaves the model and the rest of
  the worklist as they are, so the worklist is one arc shorter, or it has strictly fewer
  candidates in total, which is the only case in which arcs are added.
\<close>

theorem AC3_terminates:
  "wf (AC3_iterates :: (('v csp \<times> 'v arc list) \<times> ('v csp \<times> 'v arc list)) set) \<and>
   (\<forall>(csp :: 'v csp) xi xj queue csp' queue'.
      AC3_body csp xi xj queue = Inr (Continue csp' queue') \<longrightarrow>
        total_size csp' < total_size csp \<or> (csp' = csp \<and> queue' = queue))"
proof
  have "AC3_iterates \<subseteq> measures [\<lambda>(csp :: 'v csp, queue). total_size csp, \<lambda>(csp, queue). length queue]"
    using AC3_body_decreases by (fastforce simp: AC3_iterates_def)
  then show "wf (AC3_iterates :: (('v csp \<times> 'v arc list) \<times> ('v csp \<times> 'v arc list)) set)"
    by (rule wf_subset[OF wf_measures])
next
  show "\<forall>(csp :: 'v csp) xi xj queue csp' queue'.
      AC3_body csp xi xj queue = Inr (Continue csp' queue') \<longrightarrow>
        total_size csp' < total_size csp \<or> (csp' = csp \<and> queue' = queue)"
    using AC3_body_decreases by blast
qed

theorem AC3_terminates_witness:
  "AC3_body three_cells 0 1 [(1, 0)]
     = Inr (Continue (three_cells\<lparr>domains := fmupd 0 {|Str ''2''|} (domains three_cells)\<rparr>)
              [(1, 0), (2, 0)]) \<and>
   total_size (three_cells\<lparr>domains := fmupd 0 {|Str ''2''|} (domains three_cells)\<rparr>)
     < total_size three_cells \<and>
   ((three_cells, [(0, 1), (1, 0)]), (three_cells, [(0, 1), (1, 0)])) \<notin> AC3_iterates"
proof -
  have b: "AC3_body three_cells 0 1 [(1, 0)]
     = Inr (Continue (three_cells\<lparr>domains := fmupd 0 {|Str ''2''|} (domains three_cells)\<rparr>)
              [(1, 0), (2, 0)])"
    by code_simp
  have t: "wf (AC3_iterates :: ((nat csp \<times> nat arc list) \<times> (nat csp \<times> nat arc list)) set)"
    by (rule AC3_terminates[THEN conjunct1])
  have "total_size (three_cells\<lparr>domains := fmupd 0 {|Str ''2''|} (domains three_cells)\<rparr>)
          < total_size three_cells \<or>
        (three_cells\<lparr>domains := fmupd 0 {|Str ''2''|} (domains three_cells)\<rparr> = three_cells \<and>
         [(1 :: nat, 0 :: nat), (2, 0)] = [(1, 0)])"
    by (rule AC3_terminates[THEN conjunct2, rule_format, OF b])
  then have l: "total_size (three_cells\<lparr>domains := fmupd 0 {|Str ''2''|} (domains three_cells)\<rparr>)
     < total_size three_cells"
    by simp
  have r: "((three_cells, [(0, 1), (1, 0)]), (three_cells, [(0, 1), (1, 0)])) \<notin> AC3_iterates"
    by (rule wf_not_refl[OF t])
  from b l r show ?thesis by (intro conjI)
qed

section \<open>Propagation reaches arc consistency\<close>

text \<open>What \<open>Revise\<close> leaves of a domain \<open>di\<close> against a domain \<open>dj\<close>.\<close>

definition kept :: "pyval fset \<Rightarrow> pyval fset \<Rightarrow> pyval fset" where
  "kept di dj = ffilter (\<lambda>x. \<exists>y \<in> fset dj. y \<noteq> x) di"

lemma fset_kept: "fset (kept di dj) = {x \<in> fset di. \<exists>y \<in> fset dj. y \<noteq> x}"
  by (auto simp: kept_def)

lemma kept_fsubset: "kept di dj |\<subseteq>| di"
  unfolding kept_def by (rule ffilter_fsubset)

lemma fminus_unsupported:
  "di |-| ffilter (\<lambda>x. \<not> (\<exists>y \<in> fset dj. y \<noteq> x)) di = kept di dj"
  unfolding kept_def by (rule fset_eqI) auto

lemma unsupported_empty_iff:
  "ffilter (\<lambda>x. \<not> (\<exists>y \<in> fset dj. y \<noteq> x)) di = {||} \<longleftrightarrow> kept di dj = di"
proof
  assume e: "ffilter (\<lambda>x. \<not> (\<exists>y \<in> fset dj. y \<noteq> x)) di = {||}"
  have "di |-| ffilter (\<lambda>x. \<not> (\<exists>y \<in> fset dj. y \<noteq> x)) di = di" unfolding e by simp
  then show "kept di dj = di" by (simp only: fminus_unsupported)
next
  assume k: "kept di dj = di"
  show "ffilter (\<lambda>x. \<not> (\<exists>y \<in> fset dj. y \<noteq> x)) di = {||}"
  proof (rule fset_eqI)
    fix x
    have "x |\<in>| di \<Longrightarrow> \<exists>y \<in> fset dj. y \<noteq> x"
      using fset_kept[of di dj] unfolding k by auto
    then show "x |\<in>| ffilter (\<lambda>x. \<not> (\<exists>y \<in> fset dj. y \<noteq> x)) di \<longleftrightarrow> x |\<in>| {||}"
      by auto
  qed
qed

lemma kept_ne_empty:
  "kept di dj \<noteq> {||} \<longleftrightarrow> {x \<in> fset di. \<exists>y \<in> fset dj. y \<noteq> x} \<noteq> {}"
proof -
  have "kept di dj = {||} \<longleftrightarrow> fset (kept di dj) = fset {||}" by (simp only: fset_inject)
  then show ?thesis by (simp add: fset_kept)
qed

lemma kept_ne_self:
  "kept di dj \<noteq> di \<longleftrightarrow> {x \<in> fset di. \<exists>y \<in> fset dj. y \<noteq> x} \<noteq> fset di"
proof -
  have "kept di dj = di \<longleftrightarrow> fset (kept di dj) = fset di" by (simp only: fset_inject)
  then show ?thesis by (simp add: fset_kept)
qed

lemma symmetric_neighborsD:
  "symmetric_neighbors csp \<Longrightarrow> xj \<in> set (neighbors_of csp xi) \<Longrightarrow> xi \<in> set (neighbors_of csp xj)"
  unfolding symmetric_neighbors_def neighbors_of_def
  by (cases "fmlookup (neighbors csp) xi") (auto simp: fmlookup_dom'_iff)

lemma Revise_False:
  assumes "Revise csp xi xj = Inr (False, csp')"
  shows "csp' = csp \<and> supported csp xi xj"
proof (cases "fmlookup (domains csp) xi")
  case None
  with assms show ?thesis by (simp add: Revise_def)
next
  case di: (Some di)
  show ?thesis
  proof (cases "di = {||}")
    case True
    with assms di show ?thesis by (simp add: Revise_def supported_def values_of_def)
  next
    case False
    with assms di obtain dj where dj: "fmlookup (domains csp) xj = Some dj"
      by (cases "fmlookup (domains csp) xj") (simp_all add: Revise_def)
    from assms di dj False
    have e: "ffilter (\<lambda>x. \<not> (\<exists>y \<in> fset dj. y \<noteq> x)) di = {||}" and c: "csp' = csp"
      by (simp_all add: Revise_def Let_def split: if_splits)
    from e have "kept di dj = di" by (simp only: unsupported_empty_iff)
    then have "\<forall>x \<in> fset di. \<exists>y \<in> fset dj. y \<noteq> x"
      using fset_kept[of di dj] by auto
    with c di dj show ?thesis by (simp add: supported_def values_of_def)
  qed
qed

lemma Revise_True:
  assumes "Revise csp xi xj = Inr (True, csp')"
  shows "\<exists>di dj. fmlookup (domains csp) xi = Some di \<and> fmlookup (domains csp) xj = Some dj \<and>
           csp' = csp\<lparr>domains := fmupd xi (kept di dj) (domains csp)\<rparr> \<and> kept di dj \<noteq> di"
proof -
  from assms obtain di where di: "fmlookup (domains csp) xi = Some di" and ne: "di \<noteq> {||}"
    by (cases "fmlookup (domains csp) xi") (auto simp: Revise_def split: if_splits)
  with assms obtain dj where dj: "fmlookup (domains csp) xj = Some dj"
    by (cases "fmlookup (domains csp) xj") (simp_all add: Revise_def)
  from assms di dj ne
  have r: "ffilter (\<lambda>x. \<not> (\<exists>y \<in> fset dj. y \<noteq> x)) di \<noteq> {||}"
    and c: "csp' = csp\<lparr>domains := fmupd xi
              (di |-| ffilter (\<lambda>x. \<not> (\<exists>y \<in> fset dj. y \<noteq> x)) di) (domains csp)\<rparr>"
    by (simp_all add: Revise_def Let_def split: if_splits)
  from r have "kept di dj \<noteq> di" by (simp only: unsupported_empty_iff) simp
  with di dj c show ?thesis by (simp only: fminus_unsupported) blast
qed

lemma AC3_body_Continue_cases:
  assumes "AC3_body csp xi xj queue = Inr (Continue csp' queue')"
  obtains (same) "csp' = csp" "queue' = queue" "supported csp xi xj"
  | (revised) di dj ns where
      "fmlookup (domains csp) xi = Some di" "fmlookup (domains csp) xj = Some dj"
      "fmlookup (neighbors csp) xi = Some ns"
      "kept di dj \<noteq> {||}" "kept di dj \<noteq> di"
      "csp' = csp\<lparr>domains := fmupd xi (kept di dj) (domains csp)\<rparr>"
      "queue' = queue @ map (\<lambda>xk. (xk, xi)) (filter (\<lambda>xk. xk \<noteq> xj) ns)"
proof -
  obtain b c where r: "Revise csp xi xj = Inr (b, c)"
    using assms by (auto simp: AC3_body_def split: sum.splits)
  show thesis
  proof (cases b)
    case False
    with r have "c = csp \<and> supported csp xi xj" by (simp add: Revise_False)
    with assms r False show thesis by (intro same) (auto simp: AC3_body_def)
  next
    case True
    with r have "Revise csp xi xj = Inr (True, c)" by simp
    from Revise_True[OF this] obtain di dj where
      d: "fmlookup (domains csp) xi = Some di" "fmlookup (domains csp) xj = Some dj"
      "c = csp\<lparr>domains := fmupd xi (kept di dj) (domains csp)\<rparr>"
      "kept di dj \<noteq> di"
      by blast
    from assms r True d(3) obtain ns where
      "fmlookup (neighbors csp) xi = Some ns" "kept di dj \<noteq> {||}"
      "csp' = c" "queue' = queue @ map (\<lambda>xk. (xk, xi)) (filter (\<lambda>xk. xk \<noteq> xj) ns)"
      by (auto simp: AC3_body_def split: option.splits if_splits)
    with d show thesis by (intro revised) auto
  qed
qed

lemma values_of_update:
  "values_of (csp\<lparr>domains := fmupd xi d (domains csp)\<rparr>) v
     = (if v = xi then fset d else values_of csp v)"
  by (auto simp: values_of_def)

lemma neighbors_of_update [simp]:
  "neighbors_of (csp\<lparr>domains := D\<rparr>) = neighbors_of csp"
  by (auto simp: neighbors_of_def fun_eq_iff)

lemma symmetric_neighbors_update [simp]:
  "symmetric_neighbors (csp\<lparr>domains := D\<rparr>) = symmetric_neighbors csp"
  by (simp add: symmetric_neighbors_def)

lemma AC3_body_pending:
  assumes sym: "symmetric_neighbors csp"
    and pend: "pending csp ((xi, xj) # queue)"
    and body: "AC3_body csp xi xj queue = Inr (Continue csp' queue')"
  shows "pending csp' queue'"
  using body
proof (cases rule: AC3_body_Continue_cases)
  case same
  with pend show ?thesis by (auto simp: pending_def)
next
  case (revised di dj ns)
  let ?keep = "{x \<in> fset di. \<exists>y \<in> fset dj. y \<noteq> x}"
  note k4 = revised(4)[unfolded kept_ne_empty] and k5 = revised(5)[unfolded kept_ne_self]
  have vi: "values_of csp xi = fset di" and vj: "values_of csp xj = fset dj"
    using revised(1,2) by (simp_all add: values_of_def)
  have ni: "neighbors_of csp xi = ns" using revised(3) by (simp add: neighbors_of_def)
  have v': "\<And>v. values_of csp' v = (if v = xi then ?keep else values_of csp v)"
    by (simp add: revised(6) values_of_update fset_kept)
  have ne: "xi \<noteq> xj"
  proof
    assume "xi = xj"
    with revised(1,2) have "dj = di" by simp
    with k4 k5 show False by (auto; metis)
  qed
  show ?thesis
    unfolding pending_def
  proof (intro ballI)
    fix a b
    assume a: "a \<in> set (variables csp')" and b: "b \<in> set (neighbors_of csp' a)"
    from a have a0: "a \<in> set (variables csp)" by (simp add: revised(6))
    from b have b0: "b \<in> set (neighbors_of csp a)" by (simp add: revised(6))
    from pend a0 b0 consider (this_arc) "(a, b) = (xi, xj)" | (queued) "(a, b) \<in> set queue"
      | (sup) "(a, b) \<noteq> (xi, xj)" "supported csp a b"
      by (auto simp: pending_def)
    then show "(a, b) \<in> set queue' \<or> supported csp' a b"
    proof cases
      case this_arc
      then have "supported csp' a b" using ne vj by (auto simp: supported_def v')
      then show ?thesis ..
    next
      case queued
      then show ?thesis by (simp add: revised(7))
    next
      case sup
      show ?thesis
      proof (cases "b = xi")
        case bxi: True
        have axi: "a \<in> set ns" using symmetric_neighborsD[OF sym b0] bxi ni by simp
        show ?thesis
        proof (cases "a = xj")
          case False
          with axi bxi have "(a, b) \<in> set queue'" by (simp add: revised(7))
          then show ?thesis ..
        next
          case True
          have "supported csp' a b"
            unfolding supported_def
          proof
            fix y assume "y \<in> values_of csp' a"
            with True ne have y: "y \<in> fset dj" by (simp add: v' vj)
            with sup(2) True bxi vi vj obtain x where "x \<in> fset di" "x \<noteq> y"
              by (auto simp: supported_def)
            with y have "x \<in> ?keep" by auto
            with \<open>x \<noteq> y\<close> bxi show "\<exists>x \<in> values_of csp' b. x \<noteq> y" by (auto simp: v')
          qed
          then show ?thesis ..
        qed
      next
        case False
        have "supported csp' a b"
          unfolding supported_def
        proof
          fix x assume "x \<in> values_of csp' a"
          then have "x \<in> values_of csp a" using vi by (auto simp: v' split: if_splits)
          with sup(2) obtain y where "y \<in> values_of csp b" "y \<noteq> x"
            by (auto simp: supported_def)
          with False show "\<exists>y \<in> values_of csp' b. y \<noteq> x" by (auto simp: v')
        qed
        then show ?thesis ..
      qed
    qed
  qed
qed


lemma narrows_neighbors_of: "narrows csp' csp \<Longrightarrow> neighbors_of csp' = neighbors_of csp"
  by (auto simp: narrows_def neighbors_of_def fun_eq_iff)

lemma narrows_symmetric:
  "narrows csp' csp \<Longrightarrow> symmetric_neighbors csp' = symmetric_neighbors csp"
  by (simp add: symmetric_neighbors_def narrows_neighbors_of) (simp add: narrows_def)

lemma AC3_body_Continue_narrows:
  "AC3_body csp xi xj queue = Inr (Continue csp' queue') \<Longrightarrow> narrows csp' csp"
  using AC3_body_narrows[of csp xi xj queue "Continue csp' queue'"] by simp

lemma AC3_loop_arc_consistent:
  "symmetric_neighbors csp \<Longrightarrow> pending csp queue \<Longrightarrow>
     AC3_loop csp queue = Inr (True, csp') \<Longrightarrow> arc_consistent csp'"
proof (induction csp queue rule: AC3_loop.induct)
  case (1 csp)
  then show ?case by (simp add: pending_def arc_consistent_def)
next
  case (2 csp xi xj queue)
  from "2.prems"(3) obtain it where it: "AC3_body csp xi xj queue = Inr it"
    by (auto split: sum.splits)
  show ?case
  proof (cases it)
    case (Return b c)
    with "2.prems"(3) it have False
      by (auto simp: AC3_body_def split: sum.splits option.splits if_splits prod.splits)
    then show ?thesis ..
  next
    case (Continue c q)
    with it have body: "AC3_body csp xi xj queue = Inr (Continue c q)" by simp
    have "symmetric_neighbors c"
      using narrows_symmetric[OF AC3_body_Continue_narrows[OF body]] "2.prems"(1) by simp
    moreover have "pending c q"
      by (rule AC3_body_pending[OF "2.prems"(1,2) body])
    moreover have "AC3_loop c q = Inr (True, csp')"
      using "2.prems"(3) body by simp
    ultimately show ?thesis using "2.IH"[OF it Continue] by simp
  qed
qed

lemma initial_queue_arcs:
  "initial_queue csp vs = Inr queue \<Longrightarrow>
     set queue = {(xi, xj). xi \<in> set vs \<and> xj \<in> set (neighbors_of csp xi)}"
proof (induction vs arbitrary: queue)
  case Nil
  then show ?case by simp
next
  case (Cons v vs)
  from Cons.prems obtain ns q where ns: "fmlookup (neighbors csp) v = Some ns"
    and q: "initial_queue csp vs = Inr q" and queue: "queue = map (Pair v) ns @ q"
    by (auto split: option.splits sum.splits)
  have "neighbors_of csp v = ns" using ns by (simp add: neighbors_of_def)
  with Cons.IH[OF q] queue show ?case by auto
qed

lemma AC3_consistent_arc_consistent:
  assumes "symmetric_neighbors csp" and "AC3 csp = Inr (True, csp')"
  shows "arc_consistent csp'"
proof -
  from assms(2) obtain queue where q: "initial_queue csp (variables csp) = Inr queue"
    and l: "AC3_loop csp queue = Inr (True, csp')"
    by (auto simp: AC3_def split: sum.splits)
  have "pending csp queue"
    using initial_queue_arcs[OF q] by (auto simp: pending_def)
  from AC3_loop_arc_consistent[OF assms(1) this l] show ?thesis .
qed

text \<open>
  Claim C1. On a model whose neighbour relation is symmetric, when \<open>AC3\<close> returns
  consistent the model it returns is arc-consistent: for every variable \<open>xi\<close>, every
  neighbour \<open>xj\<close> of \<open>xi\<close> and every candidate \<open>x\<close> left for \<open>xi\<close>, some candidate \<open>y\<close> left
  for \<open>xj\<close> differs from \<open>x\<close>.
\<close>

theorem AC3_arc_consistent:
  assumes "symmetric_neighbors csp" and "AC3 csp = Inr (True, csp')"
  shows "\<forall>xi \<in> set (variables csp'). \<forall>xj \<in> set (neighbors_of csp' xi).
           \<forall>x \<in> values_of csp' xi. \<exists>y \<in> values_of csp' xj. y \<noteq> x"
  using AC3_consistent_arc_consistent[OF assms]
  by (simp add: arc_consistent_def supported_def)

theorem AC3_arc_consistent_witness:
  "symmetric_neighbors three_cells \<and>
   AC3 three_cells
     = Inr (True, three_cells\<lparr>domains := fmap_of_list
              [(0, {|Str ''2''|}), (1, {|Str ''1''|}), (2, {|Str ''3''|})]\<rparr>) \<and>
   (\<exists>y \<in> values_of (three_cells\<lparr>domains := fmap_of_list
              [(0, {|Str ''2''|}), (1, {|Str ''1''|}), (2, {|Str ''3''|})]\<rparr>) 1. y \<noteq> Str ''2'')"
proof -
  let ?c = "three_cells\<lparr>domains := fmap_of_list
              [(0, {|Str ''2''|}), (1, {|Str ''1''|}), (2, {|Str ''3''|})]\<rparr>"
  have s: "symmetric_neighbors three_cells" by code_simp
  have a: "AC3 three_cells = Inr (True, ?c)" by code_simp
  have xi: "0 \<in> set (variables ?c)" by code_simp
  have xj: "1 \<in> set (neighbors_of ?c 0)" by code_simp
  have x: "Str ''2'' \<in> values_of ?c 0" by code_simp
  from AC3_arc_consistent[OF s a, THEN bspec, OF xi, THEN bspec, OF xj, THEN bspec, OF x] s a
  show ?thesis by (intro conjI)
qed

section \<open>Equal clues in neighbouring cells\<close>

lemma narrows_well_formed:
  assumes "narrows csp' csp" "well_formed csp"
  shows "well_formed csp'"
  using assms narrows_dom[OF assms(1)] narrows_neighbors_of[OF assms(1)]
  by (simp add: well_formed_def) (simp add: narrows_def)

lemma narrows_between_variables:
  "narrows csp' csp \<Longrightarrow> between_variables csp' queue = between_variables csp queue"
  by (simp add: between_variables_def narrows_def)

lemma Revise_no_error:
  assumes "xi \<in> fmdom' (domains csp)" "xj \<in> fmdom' (domains csp)"
  shows "\<exists>revised csp'. Revise csp xi xj = Inr (revised, csp')"
  using assms
  by (auto simp: Revise_def Let_def fmlookup_dom'_iff)

lemma AC3_body_no_error:
  assumes "xi \<in> fmdom' (domains csp)" "xj \<in> fmdom' (domains csp)"
    "xi \<in> fmdom' (neighbors csp)"
  shows "\<exists>it. AC3_body csp xi xj queue = Inr it"
proof -
  from Revise_no_error[OF assms(1,2)] obtain revised csp' where
    r: "Revise csp xi xj = Inr (revised, csp')" by blast
  have n: "narrows csp' csp" by (rule Revise_narrows[OF r])
  have "xi \<in> fmdom' (domains csp')" using narrows_dom[OF n] assms(1) by simp
  then obtain di where di: "fmlookup (domains csp') xi = Some di"
    by (auto simp: fmlookup_dom'_iff)
  from assms(3) n obtain ns where ns: "fmlookup (neighbors csp') xi = Some ns"
    by (auto simp: fmlookup_dom'_iff narrows_def)
  show ?thesis using r di ns by (simp add: AC3_body_def)
qed

lemma AC3_body_Return:
  assumes "AC3_body csp xi xj queue = Inr (Return b csp')"
  shows "\<not> b \<and> fmlookup (domains csp') xi = Some {||} \<and> narrows csp' csp"
proof -
  have "narrows csp' csp" using AC3_body_narrows[OF assms] by simp
  moreover have "\<not> b \<and> fmlookup (domains csp') xi = Some {||}"
    using assms
    by (auto simp: AC3_body_def split: sum.splits option.splits if_splits)
  ultimately show ?thesis by simp
qed

lemma AC3_body_between_variables:
  assumes wf: "well_formed csp"
    and bv: "between_variables csp ((xi, xj) # queue)"
    and body: "AC3_body csp xi xj queue = Inr (Continue csp' queue')"
  shows "between_variables csp' queue'"
  using body
proof (cases rule: AC3_body_Continue_cases)
  case same
  with bv show ?thesis by (simp add: between_variables_def)
next
  case (revised di dj ns)
  have xi: "xi \<in> set (variables csp)" using bv by (simp add: between_variables_def)
  have "neighbors_of csp xi = ns" using revised(3) by (simp add: neighbors_of_def)
  with wf xi have "set ns \<subseteq> set (variables csp)" by (auto simp: well_formed_def)
  with bv xi show ?thesis
    unfolding revised(6,7) by (auto simp: between_variables_def)
qed

lemma well_formed_keys:
  assumes "well_formed csp" "v \<in> set (variables csp)"
  shows "v \<in> fmdom' (domains csp)" "v \<in> fmdom' (neighbors csp)"
  using assms by (auto simp: well_formed_def)


lemma initial_queue_no_error:
  "set vs \<subseteq> fmdom' (neighbors csp) \<Longrightarrow> \<exists>queue. initial_queue csp vs = Inr queue"
  by (induction vs) (auto simp: fmlookup_dom'_iff)

lemma initial_queue_between_variables:
  assumes "well_formed csp" "initial_queue csp (variables csp) = Inr queue"
  shows "between_variables csp queue"
  using assms(1) initial_queue_arcs[OF assms(2)]
  by (auto simp: between_variables_def well_formed_def)



lemma AC3_loop_clash:
  "well_formed csp \<Longrightarrow> between_variables csp queue \<Longrightarrow> (xi, xj) \<in> set queue \<Longrightarrow>
   fmlookup (domains csp) xi = Some {|v|} \<Longrightarrow> fmlookup (domains csp) xj = Some {|v|} \<Longrightarrow>
     \<exists>csp'. AC3_loop csp queue = Inr (False, csp') \<and> (\<exists>x. fmlookup (domains csp') x = Some {||})"
proof (induction csp queue rule: AC3_loop.induct)
  case (1 csp)
  then show ?case by simp
next
  case (2 csp a b queue)
  have a: "a \<in> set (variables csp)" and b: "b \<in> set (variables csp)"
    using "2.prems"(2) by (simp_all add: between_variables_def)
  from AC3_body_no_error[OF well_formed_keys(1)[OF "2.prems"(1) a]
      well_formed_keys(1)[OF "2.prems"(1) b] well_formed_keys(2)[OF "2.prems"(1) a]]
  obtain it where it: "AC3_body csp a b queue = Inr it" by blast
  show ?case
  proof (cases it)
    case (Return r c)
    with it have "AC3_body csp a b queue = Inr (Return r c)" by simp
    from AC3_body_Return[OF this] it Return show ?thesis by auto
  next
    case (Continue c q)
    with it have body: "AC3_body csp a b queue = Inr (Continue c q)" by simp
    have wf: "well_formed c"
      by (rule narrows_well_formed[OF AC3_body_Continue_narrows[OF body] "2.prems"(1)])
    have bv: "between_variables c q"
      by (rule AC3_body_between_variables[OF "2.prems"(1,2) body])
    have "(xi, xj) \<in> set q \<and> fmlookup (domains c) xi = Some {|v|} \<and>
            fmlookup (domains c) xj = Some {|v|}"
      using body
    proof (cases rule: AC3_body_Continue_cases)
      case same
      have "\<not> supported csp xi xj"
        using "2.prems"(4,5) by (simp add: supported_def values_of_def)
      with same(3) have "(a, b) \<noteq> (xi, xj)" by auto
      with "2.prems"(3,4,5) same(1,2) show ?thesis by auto
    next
      case (revised di dj ns)
      let ?keep = "kept di dj"
      have sub: "?keep |\<subseteq>| di" by (rule kept_fsubset)
      have axi: "a \<noteq> xi"
      proof
        assume "a = xi"
        with revised(1) "2.prems"(4) have "di = {|v|}" by simp
        with sub have "?keep = {||} \<or> ?keep = {|v|}" by (simp add: fsubset_fsingletonD)
        with \<open>di = {|v|}\<close> revised(4,5) show False by simp
      qed
      have axj: "a \<noteq> xj"
      proof
        assume "a = xj"
        with revised(1) "2.prems"(5) have "di = {|v|}" by simp
        with sub have "?keep = {||} \<or> ?keep = {|v|}" by (simp add: fsubset_fsingletonD)
        with \<open>di = {|v|}\<close> revised(4,5) show False by simp
      qed
      from axi "2.prems"(3) have "(xi, xj) \<in> set queue" by auto
      then have "(xi, xj) \<in> set q" by (simp add: revised(7))
      moreover have "fmlookup (domains c) xi = Some {|v|}"
        using axi "2.prems"(4) by (simp add: revised(6))
      moreover have "fmlookup (domains c) xj = Some {|v|}"
        using axj "2.prems"(5) by (simp add: revised(6))
      ultimately show ?thesis by simp
    qed
    with "2.IH"[OF it Continue wf bv] body show ?thesis by simp
  qed
qed

text \<open>
  Claim C4. On a well-formed model in which a variable and one of its neighbours have the
  same single candidate, \<open>AC3\<close> returns (it raises nothing), the flag it returns is
  \<^verbatim>\<open>False\<close>, some domain of the model it returns is empty, and the driver takes the
  return of line 202, the one outcome reached without a call of \<open>backtrack\<close>.
\<close>

theorem AC3_rejects_equal_neighbors:
  assumes "well_formed csp"
    and "xi \<in> set (variables csp)" and "xj \<in> set (neighbors_of csp xi)"
    and "fmlookup (domains csp) xi = Some {|v|}" and "fmlookup (domains csp) xj = Some {|v|}"
  shows "\<exists>csp'. AC3 csp = Inr (False, csp') \<and> (\<exists>x. fmlookup (domains csp') x = Some {||}) \<and>
           solve csp = Inr No_solution_after_AC3"
proof -
  from assms(1) initial_queue_no_error[of "variables csp" csp] obtain queue where
    q: "initial_queue csp (variables csp) = Inr queue" by (auto simp: well_formed_def)
  have "(xi, xj) \<in> set queue"
    using initial_queue_arcs[OF q] assms(2,3) by simp
  from AC3_loop_clash[OF assms(1) initial_queue_between_variables[OF assms(1) q] this assms(4,5)]
  obtain csp' where "AC3_loop csp queue = Inr (False, csp')"
    "\<exists>x. fmlookup (domains csp') x = Some {||}" by blast
  with q have "AC3 csp = Inr (False, csp') \<and> (\<exists>x. fmlookup (domains csp') x = Some {||}) \<and>
           solve csp = Inr No_solution_after_AC3"
    by (simp add: AC3_def solve_def)
  then show ?thesis ..
qed


theorem AC3_rejects_equal_neighbors_witness:
  "well_formed equal_pair \<and> 0 \<in> set (variables equal_pair) \<and>
   1 \<in> set (neighbors_of equal_pair 0) \<and>
   fmlookup (domains equal_pair) 0 = Some {|Str ''5''|} \<and>
   fmlookup (domains equal_pair) 1 = Some {|Str ''5''|} \<and>
   (\<exists>csp'. AC3 equal_pair = Inr (False, csp') \<and> (\<exists>x. fmlookup (domains csp') x = Some {||}) \<and>
      solve equal_pair = Inr No_solution_after_AC3)"
proof -
  have w: "well_formed equal_pair" by code_simp
  have xi: "0 \<in> set (variables equal_pair)" by code_simp
  have xj: "1 \<in> set (neighbors_of equal_pair 0)" by code_simp
  have di: "fmlookup (domains equal_pair) 0 = Some {|Str ''5''|}" by code_simp
  have dj: "fmlookup (domains equal_pair) 1 = Some {|Str ''5''|}" by code_simp
  from AC3_rejects_equal_neighbors[OF w xi xj di dj] w xi xj di dj
  show ?thesis by (intro conjI)
qed

section \<open>Soundness of search\<close>

lemma collapse_shape:
  assumes "collapse csp var val = Inr new_csp"
  shows "variables new_csp = variables csp" "neighbors new_csp = neighbors csp"
    "fmdom' (domains new_csp) = insert var (fmdom' (domains csp))"
  using assms by (auto simp: collapse_def split: sum.splits)

lemma collapse_symmetric:
  "collapse csp var val = Inr new_csp \<Longrightarrow> symmetric_neighbors new_csp = symmetric_neighbors csp"
  by (auto simp: collapse_def split: sum.splits)

lemma backtrack_shape:
  "backtrack csp = Inr (Some solution) \<Longrightarrow>
     variables solution = variables csp \<and> neighbors solution = neighbors csp \<and>
     fmdom' (domains solution) = fmdom' (domains csp)"
proof (induction csp rule: backtrack.induct)
  case (1 csp)
  from "1.prems" show ?case
  proof (cases rule: backtrack_Some_cases)
    case solved
    then show ?thesis by simp
  next
    case (branch var d vals val new_csp revised_csp)
    have n: "narrows revised_csp new_csp" by (rule AC3_narrows[OF branch(7)])
    have "var \<in> fmdom' (domains csp)" using branch(3) by (rule fmdom'I)
    with collapse_shape[OF branch(6)]
    have "variables new_csp = variables csp" "neighbors new_csp = neighbors csp"
      "fmdom' (domains new_csp) = fmdom' (domains csp)"
      by auto
    moreover from n narrows_dom[OF n]
    have "variables revised_csp = variables new_csp" "neighbors revised_csp = neighbors new_csp"
      "fmdom' (domains revised_csp) = fmdom' (domains new_csp)"
      by (simp_all add: narrows_def)
    moreover note "1.IH"[OF branch(1,2) refl branch(3,4,5,6,7) refl _ branch(8)]
    ultimately show ?thesis by simp
  qed
qed

lemma backtrack_solved_arc_consistent:
  "symmetric_neighbors csp \<Longrightarrow> arc_consistent csp \<or> \<not> is_solved csp \<Longrightarrow>
   backtrack csp = Inr (Some solution) \<Longrightarrow> is_solved solution \<and> arc_consistent solution"
proof (induction csp rule: backtrack.induct)
  case (1 csp)
  from "1.prems"(3) show ?case
  proof (cases rule: backtrack_Some_cases)
    case solved
    with "1.prems"(2) show ?thesis by simp
  next
    case (branch var d vals val new_csp revised_csp)
    have sym': "symmetric_neighbors new_csp"
      using collapse_symmetric[OF branch(6)] "1.prems"(1) by simp
    have sym'': "symmetric_neighbors revised_csp"
      using narrows_symmetric[OF AC3_narrows[OF branch(7)]] sym' by simp
    have ac: "arc_consistent revised_csp"
      by (rule AC3_consistent_arc_consistent[OF sym' branch(7)])
    from "1.IH"[OF branch(1,2) refl branch(3,4,5,6,7) refl _ sym'' _ branch(8)] ac
    show ?thesis by simp
  qed
qed

lemma is_solved_iff:
  "is_solved csp \<longleftrightarrow> (\<forall>v d. fmlookup (domains csp) v = Some d \<longrightarrow> fcard d = 1)"
  by (auto simp: is_solved_def fmlookup_ran_iff)

lemma fcard_1_singleton: "fcard d = 1 \<Longrightarrow> \<exists>a. d = {|a|}"
proof -
  assume "fcard d = 1"
  then have "card (fset d) = 1" by (simp add: fcard.rep_eq)
  then obtain a where "fset d = {a}" by (auto simp: card_1_singleton_iff)
  then have "fset d = fset {|a|}" by simp
  then have "d = {|a|}" by (simp only: fset_inject)
  then show ?thesis ..
qed

text \<open>
  Claim C2 says that every model \<open>backtrack\<close> returns has different values in neighbouring
  cells. \<open>backtrack\<close> returns its argument as it is when every domain is a singleton
  (lines 152-153), whatever the values: on two neighbouring cells that both hold 5 it
  returns that model.
\<close>

theorem backtrack_returns_solved_input:
  "backtrack equal_pair = Inr (Some equal_pair) \<and>
   0 \<in> set (variables equal_pair) \<and> 1 \<in> set (neighbors_of equal_pair 0) \<and>
   fmlookup (domains equal_pair) 0 = Some {|Str ''5''|} \<and>
   fmlookup (domains equal_pair) 1 = Some {|Str ''5''|}"
  by code_simp

text \<open>
  Claim C2 as amended. Let the neighbour relation of the model handed to \<open>backtrack\<close> be
  symmetric, and let the model be not yet fully assigned (as it is when \<open>main\<close> calls
  \<open>backtrack\<close>, line 204), or else arc-consistent with a domain for every variable. Then in
  a model that \<open>backtrack\<close> returns every variable has exactly one value, and so has each of
  its neighbours, and the two values differ.
\<close>

theorem backtrack_sound:
  assumes "symmetric_neighbors csp"
    and "\<not> is_solved csp \<or>
         (arc_consistent csp \<and> set (variables csp) \<subseteq> fmdom' (domains csp))"
    and "backtrack csp = Inr (Some solution)"
  shows "(\<forall>v \<in> set (variables solution). \<exists>a. fmlookup (domains solution) v = Some {|a|}) \<and>
         (\<forall>xi \<in> set (variables solution). \<forall>xj \<in> set (neighbors_of solution xi).
            \<exists>a b. fmlookup (domains solution) xi = Some {|a|} \<and>
                  fmlookup (domains solution) xj = Some {|b|} \<and> a \<noteq> b)"
proof -
  from assms(2) have "arc_consistent csp \<or> \<not> is_solved csp" by blast
  from backtrack_solved_arc_consistent[OF assms(1) this assms(3)]
  have s: "is_solved solution" and c: "arc_consistent solution" by simp_all
  have keys: "set (variables csp) \<subseteq> fmdom' (domains csp)"
  proof (cases "is_solved csp")
    case True
    with assms(2) show ?thesis by simp
  next
    case False
    from assms(3) show ?thesis
    proof (cases rule: backtrack_Some_cases)
      case solved
      with False show ?thesis by simp
    next
      case (branch var d vals val new_csp revised_csp)
      from branch(2) obtain us where "unassigned csp (variables csp) = Inr us"
        by (auto simp: select_unassigned_variable_def split: sum.splits)
      from unassigned_filter[OF this] show ?thesis by simp
    qed
  qed
  have single: "\<exists>a. fmlookup (domains solution) v = Some {|a|}"
    if "v \<in> set (variables solution)" for v
  proof -
    from that keys backtrack_shape[OF assms(3)] have "v \<in> fmdom' (domains solution)" by auto
    then obtain d where d: "fmlookup (domains solution) v = Some d"
      by (auto simp: fmlookup_dom'_iff)
    with s have "fcard d = 1" by (simp add: is_solved_iff)
    from fcard_1_singleton[OF this] d show ?thesis by auto
  qed
  have differ: "\<exists>a b. fmlookup (domains solution) xi = Some {|a|} \<and>
                  fmlookup (domains solution) xj = Some {|b|} \<and> a \<noteq> b"
    if xi: "xi \<in> set (variables solution)" and xj: "xj \<in> set (neighbors_of solution xi)"
    for xi xj
  proof -
    from single[OF xi] obtain a where a: "fmlookup (domains solution) xi = Some {|a|}" by blast
    from c xi xj have "supported solution xi xj" by (simp add: arc_consistent_def)
    with a obtain y where y: "y \<in> values_of solution xj" "y \<noteq> a"
      by (auto simp: supported_def values_of_def)
    then obtain dj where dj: "fmlookup (domains solution) xj = Some dj"
      by (cases "fmlookup (domains solution) xj") (auto simp: values_of_def)
    with s have "fcard dj = 1" by (simp add: is_solved_iff)
    from fcard_1_singleton[OF this] obtain b where b: "dj = {|b|}" by blast
    with y dj have "b \<noteq> a" by (simp add: values_of_def)
    with a dj b show ?thesis by auto
  qed
  from single differ show ?thesis by blast
qed

theorem backtrack_sound_witness:
  "symmetric_neighbors two_open \<and> \<not> is_solved two_open \<and>
   backtrack two_open
     = Inr (Some (two_open\<lparr>domains := fmap_of_list [(0, {|Str ''1''|}), (1, {|Str ''2''|})]\<rparr>)) \<and>
   (\<exists>a. fmlookup (domains (two_open\<lparr>domains :=
            fmap_of_list [(0, {|Str ''1''|}), (1, {|Str ''2''|})]\<rparr>)) 1 = Some {|a|}) \<and>
   (\<exists>a b. fmlookup (domains (two_open\<lparr>domains :=
            fmap_of_list [(0, {|Str ''1''|}), (1, {|Str ''2''|})]\<rparr>)) 0 = Some {|a|} \<and>
          fmlookup (domains (two_open\<lparr>domains :=
            fmap_of_list [(0, {|Str ''1''|}), (1, {|Str ''2''|})]\<rparr>)) 1 = Some {|b|} \<and> a \<noteq> b)"
proof -
  let ?s = "two_open\<lparr>domains := fmap_of_list [(0, {|Str ''1''|}), (1, {|Str ''2''|})]\<rparr>"
  have s: "symmetric_neighbors two_open" by code_simp
  have u: "\<not> is_solved two_open" by code_simp
  have b: "backtrack two_open = Inr (Some ?s)" by code_simp
  have x1: "1 \<in> set (variables ?s)" by code_simp
  have xi: "0 \<in> set (variables ?s)" by code_simp
  have xj: "1 \<in> set (neighbors_of ?s 0)" by code_simp
  note t = backtrack_sound[OF s disjI1[OF u] b]
  have "\<exists>a. fmlookup (domains ?s) 1 = Some {|a|}"
    by (rule t[THEN conjunct1, THEN bspec, OF x1])
  moreover have "\<exists>a b. fmlookup (domains ?s) 0 = Some {|a|} \<and>
          fmlookup (domains ?s) 1 = Some {|b|} \<and> a \<noteq> b"
    by (rule t[THEN conjunct2, THEN bspec, OF xi, THEN bspec, OF xj])
  ultimately show ?thesis using s u b by (intro conjI)
qed

section \<open>The loader and malformed input\<close>

lemma parse_sudoku_line_count:
  "length lines \<noteq> 9 \<Longrightarrow> parse_sudoku lines = Inl (ValueError Not_9_lines)"
  by (simp add: parse_sudoku_def parse_domains_def)

lemma parse_domains_two_digit_file:
  "case parse_domains two_digit_file of
     Inl e \<Rightarrow> False
   | Inr doms \<Rightarrow> fmlookup doms ''A1'' = Some {|Str ''1'', Str ''2''|}"
  by code_simp

text \<open>
  Claim C10 says that the loader raises \<^verbatim>\<open>ValueError\<close> for every cell token that is not
  one of the characters 1 to 9, the dot or 0. Lines 42 and 44 test \<^verbatim>\<open>val in '123456789'\<close>
  and \<^verbatim>\<open>val in '.0'\<close>, which on strings is the substring test, so the token \<^verbatim>\<open>12\<close>
  passes: the loader returns a model in which cell A1 has the candidates 1 and 2.
\<close>

theorem parse_sudoku_accepts_two_digit_token:
  "\<exists>csp. parse_sudoku two_digit_file = Inr csp \<and>
         fmlookup (domains csp) ''A1'' = Some {|Str ''1'', Str ''2''|}"
  using parse_domains_two_digit_file
  by (auto simp: parse_sudoku_def split: sum.splits)


section \<open>Determinism\<close>



































section \<open>Domains under propagation and assignment\<close>

text \<open>
  Claim C5 says that no step of \<open>AC3\<close> or \<open>backtrack\<close> adds a value to a domain. The
  assignment of line 161 writes \<^verbatim>\<open>set(value)\<close>, the set of the characters of the
  candidate, not the set that holds the candidate: on a cell with the candidates 10 and 11,
  which \<open>backtrack\<close> selects and whose first candidate is 10, the new domain holds the
  values 1 and 0, neither of which was in the old one.
\<close>

theorem collapse_adds_values:
  "select_unassigned_variable long_values = Inr (Some 0) \<and>
   fmlookup (domains long_values) 0 = Some {|Str ''10'', Str ''11''|} \<and>
   py_sorted {|Str ''10'', Str ''11''|} = Inr [Str ''10'', Str ''11''] \<and>
   collapse long_values 0 (Str ''10'')
     = Inr (long_values\<lparr>domains := fmap_of_list [(0, {|Str ''1'', Str ''0''|})]\<rparr>) \<and>
   Str ''1'' |\<in>| {|Str ''1'', Str ''0''|} \<and> Str ''1'' |\<notin>| {|Str ''10'', Str ''11''|}"
  by code_simp

text \<open>
  Claim C5 as amended. A call of \<open>Revise\<close>, the only step of \<open>AC3\<close> that writes a domain,
  leaves every domain a subset of what it was, and no larger. The assignment of
  \<open>backtrack\<close> does the same whenever the candidate is a one-character string, as every
  value that the loader builds is.
\<close>

theorem domains_only_shrink:
  "(Revise csp xi xj = Inr (revised, csp') \<longrightarrow>
      narrows csp' csp \<and> (\<forall>v. domain_size csp' v \<le> domain_size csp v)) \<and>
   (fmlookup (domains csp) var = Some d \<and> py_sorted d = Inr vals \<and> Str [c] \<in> set vals \<longrightarrow>
      (\<exists>new_csp. collapse csp var (Str [c]) = Inr new_csp \<and> narrows new_csp csp \<and>
         (\<forall>v. domain_size new_csp v \<le> domain_size csp v)))"
proof (intro conjI impI)
  assume r: "Revise csp xi xj = Inr (revised, csp')"
  show "narrows csp' csp" by (rule Revise_narrows[OF r])
  then show "\<forall>v. domain_size csp' v \<le> domain_size csp v"
    by (simp add: narrows_domain_size)
next
  assume a: "fmlookup (domains csp) var = Some d \<and> py_sorted d = Inr vals \<and> Str [c] \<in> set vals"
  then have "Str [c] |\<in>| d" using py_sorted_set[of d vals] by simp
  then have sub: "{|Str [c]|} |\<subseteq>| d" by simp
  have new: "collapse csp var (Str [c]) = Inr (csp\<lparr>domains := fmupd var {|Str [c]|} (domains csp)\<rparr>)"
    by (simp add: collapse_def py_set_def)
  have n: "narrows (csp\<lparr>domains := fmupd var {|Str [c]|} (domains csp)\<rparr>) csp"
    using a sub by (intro narrows_update) auto
  then have "\<forall>v. domain_size (csp\<lparr>domains := fmupd var {|Str [c]|} (domains csp)\<rparr>) v
               \<le> domain_size csp v"
    by (simp add: narrows_domain_size)
  with new n show "\<exists>new_csp. collapse csp var (Str [c]) = Inr new_csp \<and> narrows new_csp csp \<and>
         (\<forall>v. domain_size new_csp v \<le> domain_size csp v)"
    by blast
qed

theorem domains_only_shrink_witness:
  "Revise three_cells 0 1
     = Inr (True, three_cells\<lparr>domains := fmupd 0 {|Str ''2''|} (domains three_cells)\<rparr>) \<and>
   narrows (three_cells\<lparr>domains := fmupd 0 {|Str ''2''|} (domains three_cells)\<rparr>) three_cells \<and>
   fmlookup (domains three_cells) 2 = Some {|Str ''1'', Str ''2'', Str ''3''|} \<and>
   py_sorted {|Str ''1'', Str ''2'', Str ''3''|} = Inr [Str ''1'', Str ''2'', Str ''3''] \<and>
   (\<exists>new_csp. collapse three_cells 2 (Str ''3'') = Inr new_csp \<and> narrows new_csp three_cells \<and>
      (\<forall>v. domain_size new_csp v \<le> domain_size three_cells v))"
proof -
  have r: "Revise three_cells 0 1
     = Inr (True, three_cells\<lparr>domains := fmupd 0 {|Str ''2''|} (domains three_cells)\<rparr>)"
    by code_simp
  have d: "fmlookup (domains three_cells) 2 = Some {|Str ''1'', Str ''2'', Str ''3''|}"
    by code_simp
  have s: "py_sorted {|Str ''1'', Str ''2'', Str ''3''|} = Inr [Str ''1'', Str ''2'', Str ''3'']"
    by code_simp
  have v: "Str ''3'' \<in> set [Str ''1'', Str ''2'', Str ''3'']" by simp
  note t = domains_only_shrink[of three_cells 0 1 True
      "three_cells\<lparr>domains := fmupd 0 {|Str ''2''|} (domains three_cells)\<rparr>"
      2 "{|Str ''1'', Str ''2'', Str ''3''|}" "[Str ''1'', Str ''2'', Str ''3'']" "CHR ''3''"]
  have "narrows (three_cells\<lparr>domains := fmupd 0 {|Str ''2''|} (domains three_cells)\<rparr>) three_cells"
    using t[THEN conjunct1, rule_format, OF r] by (rule conjunct1)
  moreover have "\<exists>new_csp. collapse three_cells 2 (Str ''3'') = Inr new_csp \<and>
      narrows new_csp three_cells \<and>
      (\<forall>v. domain_size new_csp v \<le> domain_size three_cells v)"
    by (rule t[THEN conjunct2, rule_format, OF conjI[OF d conjI[OF s v]]])
  ultimately show ?thesis using r d s by (intro conjI)
qed

section \<open>The model of the caller\<close>

text \<open>
  A round of the loop of \<open>backtrack\<close> on the store: the copy is appended, and the
  assignment and the propagation write into the copy alone.
\<close>

lemma first_result_st_prefix:
  assumes "\<And>x s s1 res. x \<in> set xs \<Longrightarrow> f x s = Some (Inr (s1, res)) \<Longrightarrow> prefix s s1"
    and "first_result_st f xs s = Some (Inr (s', res))"
  shows "prefix s s'"
  using assms
proof (induction xs arbitrary: s)
  case Nil
  then show ?case by simp
next
  case (Cons x xs)
  from Cons.prems(2) obtain out where out: "f x s = Some out"
    by (cases "f x s") simp_all
  show ?case
  proof (cases out)
    case (Inl e)
    with out Cons.prems(2) show ?thesis by simp
  next
    case (Inr p)
    obtain s1 r1 where p: "p = (s1, r1)" by (cases p)
    have p1: "prefix s s1" using Cons.prems(1)[of x s s1 r1] out Inr p by simp
    show ?thesis
    proof (cases r1)
      case (Some a)
      with out Inr p Cons.prems(2) p1 show ?thesis by simp
    next
      case None
      with out Inr p Cons.prems(2) have "first_result_st f xs s1 = Some (Inr (s', res))" by simp
      then have "prefix s1 s'" by (rule Cons.IH[rotated]) (rule Cons.prems(1), simp_all)
      with p1 show ?thesis by (rule prefix_order.trans)
    qed
  qed
qed

lemma branch_store:
  "(case deepcopy s csp of
      (store, new_csp) \<Rightarrow>
        (case collapse_in_place store new_csp var val of
           Inl e \<Rightarrow> Some (Inl e)
         | Inr store \<Rightarrow>
             (case AC3_in_place store new_csp of
                Inl e \<Rightarrow> Some (Inl e)
              | Inr (store, is_consistent, revised_csp) \<Rightarrow>
                  if is_consistent then k store revised_csp else Some (Inr (store, None)))))
   = (case collapse (s ! csp) var val of
        Inl e \<Rightarrow> Some (Inl e)
      | Inr new_csp \<Rightarrow>
          (case AC3 new_csp of
             Inl e \<Rightarrow> Some (Inl e)
           | Inr (is_consistent, c) \<Rightarrow>
               if is_consistent then k (s @ [c]) (length s) else Some (Inr (s @ [c], None))))"
  by (simp add: deepcopy_def collapse_in_place_def AC3_in_place_def split: sum.splits prod.splits)

lemma backtrack_st_prefix:
  "backtrack_st fuel store csp = Some (Inr (store', res)) \<Longrightarrow> prefix store store'"
proof (induction fuel arbitrary: store csp store' res)
  case 0
  then show ?case by simp
next
  case (Suc fuel)
  show ?case
  proof (cases "is_solved (store ! csp)")
    case True
    with Suc.prems show ?thesis by simp
  next
    case False
    show ?thesis
    proof (cases "select_unassigned_variable (store ! csp)")
      case (Inl e)
      with False Suc.prems show ?thesis by simp
    next
      case (Inr sel)
      show ?thesis
      proof (cases sel)
        case None
        with Inr False Suc.prems show ?thesis by simp
      next
        case (Some var)
        show ?thesis
        proof (cases "fmlookup (domains (store ! csp)) var")
          case None
          with Some Inr False Suc.prems show ?thesis by simp
        next
          case d: (Some d)
          show ?thesis
          proof (cases "py_sorted d")
            case e: (Inl e)
            with d Some Inr False Suc.prems show ?thesis by simp
          next
            case vals: (Inr vals)
            let ?f = "\<lambda>val s. case collapse (s ! csp) var val of
                         Inl e \<Rightarrow> Some (Inl e)
                       | Inr new_csp \<Rightarrow>
                           (case AC3 new_csp of
                              Inl e \<Rightarrow> Some (Inl e)
                            | Inr (is_consistent, c) \<Rightarrow>
                                if is_consistent then backtrack_st fuel (s @ [c]) (length s)
                                else Some (Inr (s @ [c], None)))"
            from Suc.prems False Inr Some d vals
            have l: "first_result_st ?f vals store = Some (Inr (store', res))"
              by (simp add: branch_store)
            show ?thesis
            proof (rule first_result_st_prefix[OF _ l])
              fix val s s1 r1
              assume f: "?f val s = Some (Inr (s1, r1))"
              then obtain n where n: "collapse (s ! csp) var val = Inr n"
                by (auto split: sum.splits)
              with f obtain b c where a: "AC3 n = Inr (b, c)"
                by (auto split: sum.splits)
              show "prefix s s1"
              proof (cases b)
                case False
                with f n a have "s1 = s @ [c]" by auto
                then show ?thesis by simp
              next
                case True
                with f n a have "backtrack_st fuel (s @ [c]) (length s) = Some (Inr (s1, r1))"
                  by simp
                from Suc.IH[OF this] show ?thesis by (rule append_prefixD)
              qed
            qed
          qed
        qed
      qed
    qed
  qed
qed

lemma first_result_st_refines:
  assumes step: "\<And>x s. x \<in> set xs \<Longrightarrow> I s \<Longrightarrow>
      \<exists>out. f x s = Some out \<and>
        (case out of Inl e \<Rightarrow> g x = Inl e
         | Inr (s1, res) \<Rightarrow> I s1 \<and> g x = Inr (map_option ((!) s1) res))"
    and inv: "I s"
  shows "\<exists>out. first_result_st f xs s = Some out \<and>
           (case out of Inl e \<Rightarrow> first_result g xs = Inl e
            | Inr (s', res) \<Rightarrow> I s' \<and> first_result g xs = Inr (map_option ((!) s') res))"
  using assms
proof (induction xs arbitrary: s)
  case Nil
  then show ?case by simp
next
  case (Cons x xs)
  from Cons.prems(1)[of x s] Cons.prems(2) obtain out where out: "f x s = Some out"
    and rel: "case out of Inl e \<Rightarrow> g x = Inl e
              | Inr (s1, res) \<Rightarrow> I s1 \<and> g x = Inr (map_option ((!) s1) res)"
    by auto
  show ?case
  proof (cases out)
    case (Inl e)
    with out rel show ?thesis by simp
  next
    case (Inr p)
    obtain s1 r1 where p: "p = (s1, r1)" by (cases p)
    from rel Inr p have i1: "I s1" and g: "g x = Inr (map_option ((!) s1) r1)" by simp_all
    show ?thesis
    proof (cases r1)
      case (Some a)
      with out Inr p i1 g show ?thesis by simp
    next
      case None
      have "\<exists>out. first_result_st f xs s1 = Some out \<and>
           (case out of Inl e \<Rightarrow> first_result g xs = Inl e
            | Inr (s', res) \<Rightarrow> I s' \<and> first_result g xs = Inr (map_option ((!) s') res))"
        by (rule Cons.IH[OF _ i1]) (rule Cons.prems(1), simp_all)
      moreover have "first_result g (x # xs) = first_result g xs"
        using g None by simp
      moreover have "first_result_st f (x # xs) s = first_result_st f xs s1"
        using out Inr p None by simp
      ultimately show ?thesis by (simp only:)
    qed
  qed
qed

lemma prefix_nth: "prefix xs ys \<Longrightarrow> i < length xs \<Longrightarrow> ys ! i = xs ! i"
  by (auto simp: prefix_def nth_append)

lemma backtrack_st_refines:
  "weight (store ! csp) < fuel \<Longrightarrow> csp < length store \<Longrightarrow>
     \<exists>out. backtrack_st fuel store csp = Some out \<and>
       (case out of Inl e \<Rightarrow> backtrack (store ! csp) = Inl e
        | Inr (store', res) \<Rightarrow> backtrack (store ! csp) = Inr (map_option ((!) store') res))"
proof (induction fuel arbitrary: store csp)
  case 0
  then show ?case by simp
next
  case (Suc fuel)
  let ?c = "store ! csp"
  show ?case
  proof (cases "is_solved ?c")
    case True
    then show ?thesis by (simp add: backtrack_solved)
  next
    case unsolved: False
    show ?thesis
    proof (cases "select_unassigned_variable ?c")
      case (Inl e)
      with unsolved show ?thesis by (simp add: backtrack_select_error)
    next
      case (Inr sel)
      show ?thesis
      proof (cases sel)
        case None
        with Inr unsolved show ?thesis by (simp add: backtrack_select_None)
      next
        case (Some var)
        with Inr have sel: "select_unassigned_variable ?c = Inr (Some var)" by simp
        show ?thesis
        proof (cases "fmlookup (domains ?c) var")
          case None
          with sel unsolved show ?thesis by (simp add: backtrack_lookup_error)
        next
          case d: (Some d)
          show ?thesis
          proof (cases "py_sorted d")
            case (Inl e)
            with d sel unsolved show ?thesis by (simp add: backtrack_sorted_error)
          next
            case vals: (Inr vals)
            let ?f = "\<lambda>val s. case collapse (s ! csp) var val of
                         Inl e \<Rightarrow> Some (Inl e)
                       | Inr new_csp \<Rightarrow>
                           (case AC3 new_csp of
                              Inl e \<Rightarrow> Some (Inl e)
                            | Inr (is_consistent, c) \<Rightarrow>
                                if is_consistent then backtrack_st fuel (s @ [c]) (length s)
                                else Some (Inr (s @ [c], None)))"
            let ?g = "\<lambda>val. case collapse ?c var val of
                         Inl e \<Rightarrow> Inl e
                       | Inr new_csp \<Rightarrow>
                           (case AC3 new_csp of
                              Inl e \<Rightarrow> Inl e
                            | Inr (is_consistent, revised_csp) \<Rightarrow>
                                if is_consistent then backtrack revised_csp else Inr None)"
            have bst: "backtrack_st (Suc fuel) store csp = first_result_st ?f vals store"
              using unsolved sel d vals by (simp add: branch_store)
            have bt: "backtrack ?c = first_result ?g vals"
              by (rule backtrack_branch[OF unsolved sel d vals])
            have "\<exists>out. first_result_st ?f vals store = Some out \<and>
                    (case out of Inl e \<Rightarrow> first_result ?g vals = Inl e
                     | Inr (s', res) \<Rightarrow> prefix store s' \<and>
                         first_result ?g vals = Inr (map_option ((!) s') res))"
            proof (rule first_result_st_refines[where I = "prefix store"])
              show "prefix store store" by simp
            next
              fix val s
              assume val: "val \<in> set vals" and ps: "prefix store s"
              have sc: "s ! csp = ?c" by (rule prefix_nth[OF ps Suc.prems(2)])
              show "\<exists>out. ?f val s = Some out \<and>
                      (case out of Inl e \<Rightarrow> ?g val = Inl e
                       | Inr (s1, res) \<Rightarrow> prefix store s1 \<and> ?g val = Inr (map_option ((!) s1) res))"
              proof (cases "collapse ?c var val")
                case (Inl e)
                then show ?thesis by (simp add: sc)
              next
                case n: (Inr n)
                show ?thesis
                proof (cases "AC3 n")
                  case (Inl e)
                  with n show ?thesis by (simp add: sc)
                next
                  case (Inr p)
                  obtain b c where p: "p = (b, c)" by (cases p)
                  with Inr have a: "AC3 n = Inr (b, c)" by simp
                  have ps': "prefix store (s @ [c])" using ps by (rule prefix_order.trans) simp
                  show ?thesis
                  proof (cases b)
                    case False
                    with n a ps' show ?thesis by (simp add: sc)
                  next
                    case True
                    have "weight c < weight ?c"
                      by (rule backtrack_descent[OF sel d vals val n a])
                    with Suc.prems(1) have t: "weight ((s @ [c]) ! length s) < fuel" by simp
                    have nth: "(s @ [c]) ! length s = c" by simp
                    have l: "length s < length (s @ [c])" by simp
                    from Suc.IH[OF t l, unfolded nth] obtain out where
                      o: "backtrack_st fuel (s @ [c]) (length s) = Some out"
                      and r: "case out of Inl e \<Rightarrow> backtrack c = Inl e
                              | Inr (s1, res) \<Rightarrow> backtrack c = Inr (map_option ((!) s1) res)"
                      by auto
                    show ?thesis
                    proof (cases out)
                      case (Inl e)
                      with o r n a True show ?thesis by (simp add: sc)
                    next
                      case (Inr q)
                      obtain s1 r1 where q: "q = (s1, r1)" by (cases q)
                      with o Inr have "backtrack_st fuel (s @ [c]) (length s) = Some (Inr (s1, r1))"
                        by simp
                      from backtrack_st_prefix[OF this] ps' have "prefix store s1"
                        by (rule prefix_order.trans[rotated])
                      with o r n a True Inr q show ?thesis by (simp add: sc)
                    qed
                  qed
                qed
              qed
            qed
            then show ?thesis unfolding bst bt by (auto split: sum.splits)
          qed
        qed
      qed
    qed
  qed
qed

text \<open>
  Claim C9. Let \<open>csp\<close> refer to a model of the store and let the fuel exceed the weight of
  that model. Then \<open>backtrack\<close> on the reference returns or raises; when it raises,
  \<open>backtrack\<close> on the model raises the same error; when it returns, the store it leaves
  extends the store at entry, so that every model that existed at entry, the one of the
  caller among them, is what it was, whether a model was found or not, and the result is
  the one of \<open>backtrack\<close> on the model.
\<close>

theorem backtrack_leaves_caller_model:
  assumes "csp < length store" and "weight (store ! csp) < fuel"
  shows "\<exists>out. backtrack_st fuel store csp = Some out \<and>
           (case out of
              Inl e \<Rightarrow> backtrack (store ! csp) = Inl e
            | Inr (store', res) \<Rightarrow>
                prefix store store' \<and> store' ! csp = store ! csp \<and>
                backtrack (store ! csp) = Inr (map_option ((!) store') res))"
proof -
  from backtrack_st_refines[OF assms(2) assms(1)] obtain out where
    o: "backtrack_st fuel store csp = Some out"
    and r: "case out of Inl e \<Rightarrow> backtrack (store ! csp) = Inl e
            | Inr (store', res) \<Rightarrow> backtrack (store ! csp) = Inr (map_option ((!) store') res)"
    by blast
  show ?thesis
  proof (cases out)
    case (Inl e)
    with o r show ?thesis by simp
  next
    case (Inr p)
    obtain store' res where p: "p = (store', res)" by (cases p)
    with o Inr have "backtrack_st fuel store csp = Some (Inr (store', res))" by simp
    then have pre: "prefix store store'" by (rule backtrack_st_prefix)
    then have "store' ! csp = store ! csp" using assms(1) by (rule prefix_nth)
    with pre o r Inr p show ?thesis by simp
  qed
qed

theorem backtrack_leaves_caller_model_witness:
  "0 < length [dead_end_first] \<and> weight ([dead_end_first] ! 0) < 7 \<and>
   backtrack_st 7 [dead_end_first] 0 = Some (Inr (searched_store, Some 3)) \<and>
   prefix [dead_end_first] searched_store \<and>
   searched_store ! 0 = dead_end_first \<and>
   backtrack dead_end_first = Inr (Some (searched_store ! 3))"
proof -
  have l: "0 < length [dead_end_first]" by simp
  have w: "weight ([dead_end_first] ! 0) < 7" by code_simp
  have b: "backtrack_st 7 [dead_end_first] 0 = Some (Inr (searched_store, Some 3))"
    by code_simp
  from backtrack_leaves_caller_model[OF l w] b
  have "prefix [dead_end_first] searched_store \<and>
        searched_store ! 0 = [dead_end_first] ! 0 \<and>
        backtrack ([dead_end_first] ! 0) = Inr (map_option ((!) searched_store) (Some 3))"
    by simp
  with l w b show ?thesis by simp
qed

end
